theory Spec2Isabelle
  imports Main "HOL-Library.Char_ord" "HOL-Library.List_Lexorder"
begin

section \<open>wheel2deb: the Debian source package descriptor (\<open>_wheel2deb/debian.py\<close>)\<close>

text \<open>
  A Python \<open>str\<close> is modelled as a \<^typ>\<open>string\<close>: a list of 8-bit characters, read as
  the code points U+0000 to U+00FF. Texts with code points above U+00FF are outside the model.
  Python compares strings code point by code point, which is the lexicographic order of
  \<open>List_Lexorder\<close> over the character order of \<open>Char_ord\<close>.
\<close>

subsection \<open>Logging\<close>

text \<open>
  Calls of \<open>logger.error\<close>, \<open>logger.warning\<close> and \<open>logger.info\<close> are collected, in order,
  as records of the level, the format string and the arguments.
\<close>

datatype level = INFO | WARNING | ERROR

datatype log_arg = Str string | StrList "string list" | StrSet "string set"

datatype log_record = Log level string "log_arg list"

subsection \<open>Platform tags\<close>

text \<open>The dictionary \<open>DEBIAN_VERS_ARCH\<close>, as the association list of its literal.\<close>

definition DEBIAN_VERS_ARCH :: "(string \<times> string) list" where
  "DEBIAN_VERS_ARCH =
    [(''manylinux1_x86_64'', ''amd64''),
     (''manylinux1_i686'', ''i686''),
     (''linux_armv7l'', ''armhf''),
     (''linux_armv6l'', ''armhf''),
     (''linux_x86_64'', ''amd64''),
     (''linux_i686'', ''amd64''),
     (''any'', ''all'')]"

text \<open>
  \<open>SourcePackage.__init__\<close>, the architecture:
  \<^verbatim>\<open>
  if wheel.arch_tag in DEBIAN_VERS_ARCH:
      self.arch = DEBIAN_VERS_ARCH[wheel.arch_tag]
  else:
      logger.error('unknown platform tag, assuming arch=all')
      self.arch = 'all'
  \<close>
  The result is the architecture and the log records emitted.
\<close>

definition init_arch :: "string \<Rightarrow> string \<times> log_record list" where
  "init_arch arch_tag =
    (case map_of DEBIAN_VERS_ARCH arch_tag of
       Some a \<Rightarrow> (a, [])
     | None \<Rightarrow> (''all'', [Log ERROR ''unknown platform tag, assuming arch=all'' []]))"

subsection \<open>The interpreter and the run dependencies\<close>

text \<open>
  What \<open>wheel.version_range(pyvers)\<close> returns is \<open>None\<close> or an object with the attributes
  \<open>min\<close> and \<open>max\<close>, each \<open>None\<close> or a version text. The method lives outside this file; its
  result is an input here.
\<close>

record vrange =
  vr_min :: "string option"
  vr_max :: "string option"

text \<open>Python's truth value of an attribute that is \<open>None\<close> or a text.\<close>

fun truthy :: "string option \<Rightarrow> bool" where
  "truthy None = False"
| "truthy (Some s) = (s \<noteq> [])"

fun str_of :: "string option \<Rightarrow> string" where
  "str_of None = ''None''"
| "str_of (Some s) = s"

text \<open>\<open>self.interpreter = 'python' if self.pyvers.major == 2 else 'python3'\<close>\<close>

definition init_interpreter :: "int \<Rightarrow> string" where
  "init_interpreter major = (if major = 2 then ''python'' else ''python3'')"

text \<open>
  The interpreter dependency list:
  \<^verbatim>\<open>
  self.depends = ['%s:any' % self.interpreter]
  if wheel.version_range(self.pyvers):
      vrange = wheel.version_range(self.pyvers)
      if vrange.max:
          self.depends.append('%s (<< %s)' % (self.interpreter, vrange.max))
      if vrange.min:
          self.depends.append('%s (>= %s~)' % (self.interpreter, vrange.min))
  \<close>
\<close>

definition interpreter_depends :: "string \<Rightarrow> vrange option \<Rightarrow> string list" where
  "interpreter_depends interpreter vr =
    [interpreter @ '':any''] @
    (case vr of
       None \<Rightarrow> []
     | Some r \<Rightarrow>
         (if truthy (vr_max r)
          then [interpreter @ '' (<< '' @ str_of (vr_max r) @ '')''] else []) @
         (if truthy (vr_min r)
          then [interpreter @ '' (>= '' @ str_of (vr_min r) @ ''~)''] else []))"

text \<open>The inputs of the constructor that the modelled fields read.\<close>

record ctx =
  python_major :: int
  ctx_depends :: "string list"

record wheel =
  arch_tag :: string
  version_range :: "vrange option"
  lib_dirs :: "string list"
  libs :: "string list"

record source_package =
  arch :: string
  interpreter :: string
  depends :: "string list"
  build_deps :: "string set"
  install_path :: string
  pkg_wheel :: wheel
  src :: string

datatype py_error = OSError

text \<open>
  The successive values of \<open>self.depends\<close> during \<open>__init__\<close>: after the interpreter
  dependency list is built, after \<open>self.depends.extend(deps)\<close> and after
  \<open>self.depends.extend(ctx.depends)\<close>. \<open>deps\<close> is the first component of what
  \<open>search_python_deps(ctx, wheel, extras)\<close> returns (a function of another module).
\<close>

definition depends_steps :: "ctx \<Rightarrow> wheel \<Rightarrow> string list \<Rightarrow> string list list" where
  "depends_steps ctx w deps =
    (let d0 = interpreter_depends (init_interpreter (python_major ctx)) (version_range w);
         d1 = d0 @ deps;
         d2 = d1 @ ctx_depends ctx
     in [d0, d1, d2])"

text \<open>
  \<open>SourcePackage.__init__\<close>, for the fields above. \<open>extract_name\<close> is
  \<open>wheel.extract_path.name\<close>; \<open>missing_written\<close> tells whether \<open>missing.txt\<close> could be
  opened and written (otherwise the constructor raises). The result carries the log.
\<close>

definition SourcePackage_init ::
  "ctx \<Rightarrow> wheel \<Rightarrow> string \<Rightarrow> string list \<Rightarrow> bool \<Rightarrow> py_error + (source_package \<times> log_record list)"
where
  "SourcePackage_init ctx w extract_name deps missing_written =
    (let (a, lg) = init_arch (arch_tag w);
         i = init_interpreter (python_major ctx);
         d = last (depends_steps ctx w deps)
     in if \<not> missing_written then Inl OSError
        else Inr (\<lparr> arch = a, interpreter = i, depends = d, build_deps = {''debhelper''},
                    install_path = (if python_major ctx = 2
                                    then ''/usr/lib/python2.7/dist-packages/''
                                    else ''/usr/lib/python3/dist-packages/''),
                    pkg_wheel = w, src = extract_name \<rparr>, lg))"

section \<open>Regular expressions, as Python's \<open>re\<close> matches them\<close>

text \<open>
  The four patterns of the file are written as syntax trees and run by a backtracking
  matcher. A matcher state is the text of group 1 (if the group has taken part) and the rest
  of the input. \<open>matches r st\<close> lists every way \<open>r\<close> can match at the start of the input, in
  the order in which a backtracking engine tries them: the left alternative before the right
  one, one more repetition before one less. The head of the list is the match that
  \<open>re\<close> reports. A repetition whose body matched the empty text is not entered again; the
  bodies of the repetitions below all consume one character.
\<close>

type_synonym mstate = "string option \<times> string"

datatype rx =
    Eps
  | Cls "char \<Rightarrow> bool"
  | Seq rx rx
  | Alt rx rx
  | Star rx
  | Opt rx
  | Group rx
  | Look rx
  | NegLook rx

fun matches :: "rx \<Rightarrow> mstate \<Rightarrow> mstate list" where
  "matches Eps st = [st]"
| "matches (Cls p) (cap, s) =
     (case s of [] \<Rightarrow> [] | c # cs \<Rightarrow> if p c then [(cap, cs)] else [])"
| "matches (Seq a b) st = concat (map (matches b) (matches a st))"
| "matches (Alt a b) st = matches a st @ matches b st"
| "matches (Star r) st =
     concat (map (\<lambda>st'. if length (snd st') < length (snd st) then matches (Star r) st' else [])
                 (matches r st)) @ [st]"
| "matches (Opt r) st = matches r st @ [st]"
| "matches (Group r) (cap, s) =
     map (\<lambda>(cap', s'). (Some (take (length s - length s') s), s')) (matches r (cap, s))"
| "matches (Look r) st = (if matches r st = [] then [] else [st])"
| "matches (NegLook r) st = (if matches r st = [] then [st] else [])"

declare matches.simps(5) [simp del]

text \<open>The least number of characters a match of a pattern consumes.\<close>

fun min_width :: "rx \<Rightarrow> nat" where
  "min_width Eps = 0"
| "min_width (Cls p) = 1"
| "min_width (Seq a b) = min_width a + min_width b"
| "min_width (Alt a b) = min (min_width a) (min_width b)"
| "min_width (Star r) = 0"
| "min_width (Opt r) = 0"
| "min_width (Group r) = min_width r"
| "min_width (Look r) = 0"
| "min_width (NegLook r) = 0"

text \<open>A pattern that cannot consume the character \<open>c\<close>.\<close>

fun avoids :: "char \<Rightarrow> rx \<Rightarrow> bool" where
  "avoids c Eps = True"
| "avoids c (Cls p) = (\<not> p c)"
| "avoids c (Seq a b) = (avoids c a \<and> avoids c b)"
| "avoids c (Alt a b) = (avoids c a \<and> avoids c b)"
| "avoids c (Star r) = avoids c r"
| "avoids c (Opt r) = avoids c r"
| "avoids c (Group r) = avoids c r"
| "avoids c (Look r) = True"
| "avoids c (NegLook r) = True"

text \<open>
  \<open>pattern.findall(s)\<close> for a pattern with one group: scan from the left; at the first
  position with a match, report group 1 (the empty text if the group took no part) and go on
  behind the match. After an empty match the scan moves one character on (none of the
  four patterns matches the empty text).
\<close>

function findall :: "rx \<Rightarrow> string \<Rightarrow> string list" where
  "findall r s =
    (case matches r (None, s) of
       [] \<Rightarrow> (case s of [] \<Rightarrow> [] | _ # t \<Rightarrow> findall r t)
     | (cap, s') # _ \<Rightarrow>
         (case cap of None \<Rightarrow> [] | Some g \<Rightarrow> g) #
         (if length s' < length s then findall r s'
          else (case s of [] \<Rightarrow> [] | _ # t \<Rightarrow> findall r t)))"
  by pat_completeness auto
termination
  by (relation "measure (\<lambda>(r, s). length s)") auto

declare findall.simps [simp del]

text \<open>
  \<open>pattern.findall(s, pos)\<close>: the scan starts at index \<open>pos\<close>. None of the patterns looks
  behind or anchors, so this is the scan of \<open>s[pos:]\<close>.
\<close>

definition findall_pos :: "rx \<Rightarrow> string \<Rightarrow> nat \<Rightarrow> string list" where
  "findall_pos r s pos = findall r (drop pos s)"

text \<open>The value of the flag \<open>re.MULTILINE\<close>.\<close>

definition MULTILINE :: nat where
  "MULTILINE = 8"

subsection \<open>Character classes\<close>

text \<open>\<open>\s\<close>, \<open>\d\<close> and lower-casing for text patterns, on the code points below U+0100.\<close>

definition is_space :: "char \<Rightarrow> bool" where
  "is_space c = (c \<in> set [CHR 0x09, CHR 0x0A, CHR 0x0B, CHR 0x0C, CHR 0x0D,
                          CHR 0x1C, CHR 0x1D, CHR 0x1E, CHR 0x1F, CHR 0x20, CHR 0x85, CHR 0xA0])"

definition is_digit :: "char \<Rightarrow> bool" where
  "is_digit c = (c \<in> set ''0123456789'')"

definition lower :: "char \<Rightarrow> char" where
  "lower c =
    (case map_of (zip ''ABCDEFGHIJKLMNOPQRSTUVWXYZ'' ''abcdefghijklmnopqrstuvwxyz'') c of
       Some l \<Rightarrow> l
     | None \<Rightarrow> c)"

definition chr :: "char \<Rightarrow> rx" where
  "chr c = Cls (\<lambda>x. x = c)"

text \<open>A letter under \<open>re.IGNORECASE\<close>.\<close>

definition chr_i :: "char \<Rightarrow> rx" where
  "chr_i c = Cls (\<lambda>x. lower x = lower c)"

text \<open>\<open>.\<close> without \<open>re.DOTALL\<close>: anything but a newline.\<close>

definition dot :: rx where
  "dot = Cls (\<lambda>x. x \<noteq> CHR 0x0A)"

definition ws :: rx where
  "ws = Cls is_space"

definition digit :: rx where
  "digit = Cls is_digit"

fun lit :: "string \<Rightarrow> rx" where
  "lit [] = Eps"
| "lit (c # cs) = Seq (chr c) (lit cs)"

fun lit_i :: "string \<Rightarrow> rx" where
  "lit_i [] = Eps"
| "lit_i (c # cs) = Seq (chr_i c) (lit_i cs)"

text \<open>\<open>r+\<close> and \<open>r{m,n}\<close>, both greedy.\<close>

definition Plus :: "rx \<Rightarrow> rx" where
  "Plus r = Seq r (Star r)"

fun times :: "nat \<Rightarrow> rx \<Rightarrow> rx" where
  "times 0 r = Eps"
| "times (Suc n) r = Seq r (times n r)"

fun upto :: "nat \<Rightarrow> rx \<Rightarrow> rx" where
  "upto 0 r = Eps"
| "upto (Suc n) r = Opt (Seq r (upto n r))"

definition Rep :: "rx \<Rightarrow> nat \<Rightarrow> nat \<Rightarrow> rx" where
  "Rep r m n = Seq (times m r) (upto (n - m) r)"

subsection \<open>The patterns\<close>

text \<open>
  \<^verbatim>\<open>COPYRIGHT_RE = re.compile(
      r'(?:copyrights?|\s*(C)|\s*\(c\))[\s:|,]*'
      r'((?=.*[a-z])\d{2,4}(?:(?!all\srights).)+)', re.IGNORECASE)\<close>
  where \<open>(C)\<close> stands for the copyright sign U+00A9 of the source.
\<close>

definition COPYRIGHT_RE :: rx where
  "COPYRIGHT_RE =
    Seq (Alt (Seq (lit_i ''copyright'') (Opt (chr_i CHR ''s'')))
        (Alt (Seq (Star ws) (chr CHR 0xA9))
             (Seq (Star ws) (lit_i ''(c)''))))
   (Seq (Star (Cls (\<lambda>c. is_space c \<or> c \<in> set '':|,'')))
        (Group
          (Seq (Look (Seq (Star dot) (Cls (\<lambda>c. lower c \<in> set ''abcdefghijklmnopqrstuvwxyz''))))
          (Seq (Rep digit 2 4)
               (Plus (Seq (NegLook (Seq (lit_i ''all'') (Seq ws (lit_i ''rights'')))) dot))))))"

text \<open>\<^verbatim>\<open>DPKG_SHLIBS_RE = re.compile(r'find library (.+\.so[.\d]*) needed')\<close>\<close>

definition DPKG_SHLIBS_RE :: rx where
  "DPKG_SHLIBS_RE =
    Seq (lit ''find library '')
   (Seq (Group (Seq (Plus dot)
               (Seq (lit ''.so'') (Star (Cls (\<lambda>c. c = CHR ''.'' \<or> is_digit c))))))
        (lit '' needed''))"

text \<open>\<^verbatim>\<open>APT_FILE_RE = re.compile(r'(.*lib.+):\s(?:/usr/lib/|/lib/)')\<close>\<close>

definition APT_FILE_RE :: rx where
  "APT_FILE_RE =
    Seq (Group (Seq (Star dot) (Seq (lit ''lib'') (Plus dot))))
   (Seq (chr CHR '':'') (Seq ws (Alt (lit ''/usr/lib/'') (lit ''/lib/''))))"

text \<open>The pattern of \<open>parse_substvars\<close>: \<^verbatim>\<open>r'([^=\s,()]+)\s?(?:\([^)]+\))?'\<close>\<close>

definition SUBSTVARS_RE :: rx where
  "SUBSTVARS_RE =
    Seq (Group (Plus (Cls (\<lambda>c. \<not> (c \<in> set ''=,()'' \<or> is_space c)))))
   (Seq (Opt ws)
        (Opt (Seq (chr CHR ''('') (Seq (Plus (Cls (\<lambda>c. c \<noteq> CHR '')''))) (chr CHR '')'')))))"

section \<open>Copyright statements\<close>

text \<open>
  \<open>SourcePackage.copyright\<close>, up to the sorted list it hands to the template:
  \<^verbatim>\<open>
  copyrights = set()
  if not licenses:
      logger.warning('no license found !')
      return
  for lic in licenses:
      content = (self.wheel.extract_path / lic).read_text()
      copyrights.update(set(re.findall(COPYRIGHT_RE, content)))
  copyrights = sorted(list(copyrights))
  \<close>
  The input is the list of the license files' contents, in the order of \<open>licenses\<close>. Without
  a license the method returns before any statement is gathered.
\<close>

fun gather_copyrights :: "string list \<Rightarrow> string set \<Rightarrow> string set" where
  "gather_copyrights [] copyrights = copyrights"
| "gather_copyrights (content # rest) copyrights =
     gather_copyrights rest (copyrights \<union> set (findall COPYRIGHT_RE content))"

definition copyright_statements :: "string list \<Rightarrow> string list option" where
  "copyright_statements contents =
    (if contents = [] then None
     else Some (sorted_list_of_set (gather_copyrights contents {})))"

section \<open>Shared library dependencies\<close>

text \<open>
  The world of \<open>search_shlibs_deps\<close>: the content of \<open>debian/substvars\<close> when the file
  exists, the command lines passed to \<open>shell\<close> so far, and the log.
\<close>

record world =
  substvars :: "string option"
  calls :: "string list list"
  logs :: "log_record list"

text \<open>
  What the method takes from outside this file. \<open>shell\<close> runs a command line: given the
  current \<open>substvars\<close> file it raises, or returns the command's output and the file as the
  command leaves it. \<open>set_order\<close> gives, for the list a Python set was built from, the order
  in which the set is iterated: a list without duplicates of the same elements. The language
  leaves that order open, and with seeded string hashing it changes from run to run.
  \<open>joinpath\<close> is \<open>str(self.src / x)\<close>.
\<close>

record externals =
  shell :: "string list \<Rightarrow> string option \<Rightarrow> py_error + (string \<times> string option)"
  set_order :: "string list \<Rightarrow> string list"
  joinpath :: "string \<Rightarrow> string \<Rightarrow> string"

text \<open>
  \<^verbatim>\<open>
  def parse_substvars():
      if (self.debian / 'substvars').is_file():
          subsvars = (self.debian / 'substvars').read_text()[15:]
          m = re.findall(r'([^=\s,()]+)\s?(?:\([^)]+\))?', subsvars)
          shlibdeps.update(m)
  \<close>
\<close>

definition parse_substvars :: "string option \<Rightarrow> string set \<Rightarrow> string set" where
  "parse_substvars file shlibdeps =
    (case file of
       None \<Rightarrow> shlibdeps
     | Some text \<Rightarrow> shlibdeps \<union> set (findall SUBSTVARS_RE (drop 15 text)))"

text \<open>\<open>p[-3:] != 'dbg'\<close>: the last three characters, or all of a shorter name.\<close>

definition not_dbg :: "string \<Rightarrow> bool" where
  "not_dbg p = (drop (length p - 3) p \<noteq> ''dbg'')"

text \<open>
  The choice of a provider for one library, from the packages in the order in which the
  set \<open>packages\<close> is iterated:
  \<^verbatim>\<open>
  packages = [p for p in packages if p[-3:] != 'dbg']
  if not len(packages):
      logger.warning("did not find a package providing %s", lib)
  else:
      packages = sorted(packages, key=len)
      shlibdeps.add(packages[0])
  if len(packages) > 1:
      logger.warning('several packages providing %s: %s, picking %s, '
                     'edit debian/control to use another one.',
                     lib, packages, packages[0])
  \<close>
  \<open>sorted\<close> is stable, as \<open>sort_key\<close> is. The result is the package added to \<open>shlibdeps\<close>,
  if any, and the log records.
\<close>

definition select_provider :: "string \<Rightarrow> string list \<Rightarrow> string option \<times> log_record list" where
  "select_provider lib packages_iter =
    (let packages = filter not_dbg packages_iter in
     case sort_key length packages of
       [] \<Rightarrow> (None, [Log WARNING ''did not find a package providing %s'' [Str lib]])
     | p # ps \<Rightarrow>
         (Some p,
          if length (p # ps) > 1
          then [Log WARNING
                  ''several packages providing %s: %s, picking %s, edit debian/control to use another one.''
                  [Str lib, StrList (p # ps), Str p]]
          else []))"

text \<open>The loop \<open>for lib in missing_libs\<close>, over the libraries in the order of iteration.\<close>

fun search_packages ::
  "externals \<Rightarrow> string list \<Rightarrow> string set \<times> world \<Rightarrow> py_error + (string set \<times> world)"
where
  "search_packages ext [] st = Inr st"
| "search_packages ext (lib # rest) (shlibdeps, w) =
    (case shell ext [''apt-file'', ''search'', lib] (substvars w) of
       Inl e \<Rightarrow> Inl e
     | Inr (output, file) \<Rightarrow>
         (let (choice, lg) = select_provider lib (set_order ext (findall APT_FILE_RE output));
              w' = w\<lparr>substvars := file,
                     calls := calls w @ [[''apt-file'', ''search'', lib]],
                     logs := logs w @ lg\<rparr>
          in search_packages ext rest
               (case choice of None \<Rightarrow> shlibdeps | Some p \<Rightarrow> insert p shlibdeps, w')))"

text \<open>
  The call of the analyzer, when the wheel has library directories and nothing was parsed:
  \<^verbatim>\<open>
  args = ['dpkg-shlibdeps'] \
         + ['-l'+str(self.src/x) for x in self.wheel.record.lib_dirs] \
         + [str(self.src/x) for x in self.wheel.record.libs]
  output = shell(args, cwd=self.root)[0]
  missing_libs.update(DPKG_SHLIBS_RE.findall(output, re.MULTILINE))
  parse_substvars()
  \<close>
  The result is the list \<open>missing_libs\<close> is built from, \<open>shlibdeps\<close> and the world.
\<close>

definition run_shlibdeps ::
  "externals \<Rightarrow> source_package \<Rightarrow> string set \<times> world \<Rightarrow>
     py_error + (string list \<times> string set \<times> world)"
where
  "run_shlibdeps ext pkg st =
    (case st of (shlibdeps, w) \<Rightarrow>
      (let args = [''dpkg-shlibdeps'']
                  @ map (\<lambda>x. ''-l'' @ joinpath ext (src pkg) x) (lib_dirs (pkg_wheel pkg))
                  @ map (\<lambda>x. joinpath ext (src pkg) x) (libs (pkg_wheel pkg))
       in case shell ext args (substvars w) of
            Inl e \<Rightarrow> Inl e
          | Inr (output, file) \<Rightarrow>
              Inr (findall_pos DPKG_SHLIBS_RE output MULTILINE,
                   parse_substvars file shlibdeps,
                   w\<lparr>substvars := file, calls := calls w @ [args]\<rparr>)))"

text \<open>
  \<open>SourcePackage.search_shlibs_deps\<close>. The result is the package with its \<open>build_deps\<close>
  updated, and the world.
\<close>

definition search_shlibs_deps ::
  "externals \<Rightarrow> source_package \<Rightarrow> world \<Rightarrow> py_error + (source_package \<times> world)"
where
  "search_shlibs_deps ext pkg w0 =
    (let shlibdeps0 = parse_substvars (substvars w0) {} in
     case (if lib_dirs (pkg_wheel pkg) \<noteq> [] \<and> shlibdeps0 = {}
           then run_shlibdeps ext pkg (shlibdeps0, w0)
           else Inr ([], shlibdeps0, w0)) of
       Inl e \<Rightarrow> Inl e
     | Inr (missing_libs, shlibdeps1, w1) \<Rightarrow>
         (case (if missing_libs \<noteq> []
                then (case search_packages ext (set_order ext missing_libs)
                             (shlibdeps1,
                              w1\<lparr>logs := logs w1 @
                                   [Log INFO
                                      ''dpkg-shlibdeps reported the following missing shared libs dependencies: %s''
                                      [StrSet (set missing_libs)]]\<rparr>) of
                        Inl e \<Rightarrow> Inl e
                      | Inr (shlibdeps2, w2) \<Rightarrow>
                          Inr (shlibdeps2,
                               if shlibdeps2 \<noteq> {}
                               then w2\<lparr>logs := logs w2 @
                                         [Log INFO ''detected dependencies: %s'' [StrSet shlibdeps2]]\<rparr>
                               else w2))
                else Inr (shlibdeps1, w1)) of
            Inl e \<Rightarrow> Inl e
          | Inr (shlibdeps, w) \<Rightarrow>
              Inr (pkg\<lparr>build_deps := build_deps pkg \<union> (\<lambda>p. p @ '':'' @ arch pkg) ` shlibdeps\<rparr>,
                   w)))"

section \<open>Properties\<close>

subsection \<open>Platform tags\<close>

text \<open>
  C10. In the table, \<open>linux_i686\<close> maps to \<open>amd64\<close>, the value of \<open>linux_x86_64\<close>, while
  \<open>manylinux1_i686\<close> maps to \<open>i686\<close>: the two 32-bit x86 tags have different targets.
\<close>

theorem table_i686_entries:
  "map_of DEBIAN_VERS_ARCH ''linux_i686'' = Some ''amd64'' \<and>
   map_of DEBIAN_VERS_ARCH ''linux_x86_64'' = Some ''amd64'' \<and>
   map_of DEBIAN_VERS_ARCH ''manylinux1_i686'' = Some ''i686'' \<and>
   fst (init_arch ''linux_i686'') = ''amd64'' \<and>
   fst (init_arch ''manylinux1_i686'') = ''i686'' \<and>
   fst (init_arch ''linux_i686'') \<noteq> fst (init_arch ''manylinux1_i686'')"
  by (simp add: DEBIAN_VERS_ARCH_def init_arch_def)

text \<open>
  C9. Every tag of the table resolves to its mapped value and logs nothing; every other tag
  resolves to \<open>all\<close> and is signalled (the code does so with one \<open>logger.error\<close> record);
  so the architecture, also that of a constructed descriptor, is one of \<open>amd64\<close>,
  \<open>i686\<close>, \<open>armhf\<close>, \<open>all\<close>.
\<close>

theorem init_arch_table:
  "(\<forall>(t, a) \<in> set DEBIAN_VERS_ARCH. init_arch t = (a, [])) \<and>
   (tag \<notin> fst ` set DEBIAN_VERS_ARCH \<longrightarrow>
      init_arch tag = (''all'', [Log ERROR ''unknown platform tag, assuming arch=all'' []])) \<and>
   fst (init_arch tag) \<in> {''amd64'', ''i686'', ''armhf'', ''all''} \<and>
   (SourcePackage_init c w n deps ok = Inr (pkg, lg) \<longrightarrow>
      arch pkg = fst (init_arch (arch_tag w)) \<and>
      arch pkg \<in> {''amd64'', ''i686'', ''armhf'', ''all''})"
proof -
  have known: "\<forall>(t, a) \<in> set DEBIAN_VERS_ARCH. init_arch t = (a, [])"
    by (simp add: DEBIAN_VERS_ARCH_def init_arch_def)
  have unknown: "init_arch tag = (''all'', [Log ERROR ''unknown platform tag, assuming arch=all'' []])"
    if "tag \<notin> fst ` set DEBIAN_VERS_ARCH"
  proof -
    from that have "map_of DEBIAN_VERS_ARCH tag = None"
      by (simp add: map_of_eq_None_iff)
    then show ?thesis by (simp add: init_arch_def)
  qed
  have closed: "fst (init_arch t) \<in> {''amd64'', ''i686'', ''armhf'', ''all''}" for t
  proof (cases "map_of DEBIAN_VERS_ARCH t")
    case None
    then show ?thesis by (simp add: init_arch_def)
  next
    case (Some a)
    then have "(t, a) \<in> set DEBIAN_VERS_ARCH" by (rule map_of_SomeD)
    then have "a \<in> {''amd64'', ''i686'', ''armhf'', ''all''}"
      by (auto simp: DEBIAN_VERS_ARCH_def)
    with Some show ?thesis by (simp add: init_arch_def)
  qed
  have descr: "arch pkg = fst (init_arch (arch_tag w)) \<and>
      arch pkg \<in> {''amd64'', ''i686'', ''armhf'', ''all''}"
    if "SourcePackage_init c w n deps ok = Inr (pkg, lg)"
  proof -
    from that have "arch pkg = fst (init_arch (arch_tag w))"
      by (auto simp: SourcePackage_init_def Let_def split: prod.splits if_splits)
    with closed [of "arch_tag w"] show ?thesis by simp
  qed
  from known unknown closed descr show ?thesis by blast
qed

theorem init_arch_table_witness:
  "init_arch ''linux_armv7l'' = (''armhf'', []) \<and>
   ''win32'' \<notin> fst ` set DEBIAN_VERS_ARCH \<and>
   init_arch ''win32'' = (''all'', [Log ERROR ''unknown platform tag, assuming arch=all'' []]) \<and>
   fst (init_arch ''win32'') \<in> {''amd64'', ''i686'', ''armhf'', ''all''} \<and>
   SourcePackage_init \<lparr>python_major = 3, ctx_depends = []\<rparr>
     \<lparr>arch_tag = ''win32'', version_range = None, lib_dirs = [], libs = []\<rparr> ''src'' [] True =
     Inr (\<lparr>arch = ''all'', interpreter = ''python3'', depends = [''python3:any''],
           build_deps = {''debhelper''}, install_path = ''/usr/lib/python3/dist-packages/'',
           pkg_wheel = \<lparr>arch_tag = ''win32'', version_range = None, lib_dirs = [], libs = []\<rparr>,
           src = ''src''\<rparr>,
          [Log ERROR ''unknown platform tag, assuming arch=all'' []]) \<and>
   arch \<lparr>arch = ''all'', interpreter = ''python3'', depends = [''python3:any''],
         build_deps = {''debhelper''}, install_path = ''/usr/lib/python3/dist-packages/'',
         pkg_wheel = \<lparr>arch_tag = ''win32'', version_range = None, lib_dirs = [], libs = []\<rparr>,
         src = ''src''\<rparr> \<in> {''amd64'', ''i686'', ''armhf'', ''all''}"
proof -
  let ?c = "\<lparr>python_major = 3, ctx_depends = []\<rparr>"
  let ?w = "\<lparr>arch_tag = ''win32'', version_range = None, lib_dirs = [], libs = []\<rparr>"
  let ?pkg = "\<lparr>arch = ''all'', interpreter = ''python3'', depends = [''python3:any''],
         build_deps = {''debhelper''}, install_path = ''/usr/lib/python3/dist-packages/'',
         pkg_wheel = ?w, src = ''src''\<rparr>"
  let ?lg = "[Log ERROR ''unknown platform tag, assuming arch=all'' []]"
  have absent: "''win32'' \<notin> fst ` set DEBIAN_VERS_ARCH"
    by (simp add: DEBIAN_VERS_ARCH_def)
  have present: "(''linux_armv7l'', ''armhf'') \<in> set DEBIAN_VERS_ARCH"
    by (simp add: DEBIAN_VERS_ARCH_def)
  note t = init_arch_table [of "''win32''" ?c ?w "''src''" "[]" True ?pkg ?lg]
  from t [THEN conjunct1] present
  have c1: "init_arch ''linux_armv7l'' = (''armhf'', [])" by blast
  note c2 = t [THEN conjunct2, THEN conjunct1, THEN mp, OF absent]
  note c3 = t [THEN conjunct2, THEN conjunct2, THEN conjunct1]
  have c4: "SourcePackage_init ?c ?w ''src'' [] True = Inr (?pkg, ?lg)"
    by (simp add: SourcePackage_init_def c2 depends_steps_def interpreter_depends_def
        init_interpreter_def Let_def)
  note c5 = t [THEN conjunct2, THEN conjunct2, THEN conjunct2, THEN mp, OF c4, THEN conjunct2]
  from c1 absent c2 c3 c4 c5 show ?thesis by (intro conjI)
qed

subsection \<open>The run dependencies\<close>

text \<open>
  C5, as the specification states it, fails: with the range (min 3.2, no max) the second
  specifier is not the base specifier followed by the bound.
\<close>

theorem interpreter_depends_counterexample:
  "interpreter_depends (init_interpreter 3) (Some \<lparr>vr_min = Some ''3.2'', vr_max = None\<rparr>) \<noteq>
     [init_interpreter 3 @ '':any'', (init_interpreter 3 @ '':any'') @ '' (>= 3.2~)'']"
  by (simp add: interpreter_depends_def init_interpreter_def)

text \<open>
  C5, amended. The bounds are appended to the interpreter's name, not to the base specifier
  (the name followed by \<open>:any\<close>): with (min 3.2, no max) the list is the base specifier and
  the name with \<open>(>= 3.2~)\<close>; with (no min, max 4.0) the base specifier and the name with
  \<open>(<< 4.0)\<close>; with no range the base specifier alone.
\<close>

theorem interpreter_depends_cases:
  "interpreter_depends (init_interpreter major) (Some \<lparr>vr_min = Some ''3.2'', vr_max = None\<rparr>) =
     [init_interpreter major @ '':any'', init_interpreter major @ '' (>= 3.2~)''] \<and>
   interpreter_depends (init_interpreter major) (Some \<lparr>vr_min = None, vr_max = Some ''4.0''\<rparr>) =
     [init_interpreter major @ '':any'', init_interpreter major @ '' (<< 4.0)''] \<and>
   interpreter_depends (init_interpreter major) None = [init_interpreter major @ '':any'']"
  by (simp add: interpreter_depends_def)

text \<open>
  C8. When the constructor completes, the first element of the run dependencies is the
  interpreter dependency specifier, and it is the first element at every step of the
  construction; the constructor completes whenever \<open>missing.txt\<close> can be written.
\<close>

theorem depends_head_interpreter:
  assumes "missing_written"
  shows "\<exists>pkg lg. SourcePackage_init c w n deps missing_written = Inr (pkg, lg) \<and>
           depends pkg \<noteq> [] \<and>
           hd (depends pkg) = interpreter pkg @ '':any'' \<and>
           depends pkg = last (depends_steps c w deps) \<and>
           (\<forall>d \<in> set (depends_steps c w deps). d \<noteq> [] \<and> hd d = interpreter pkg @ '':any'')"
  using assms
  by (simp add: SourcePackage_init_def depends_steps_def interpreter_depends_def Let_def
      split: prod.splits)

theorem depends_head_interpreter_witness:
  "\<exists>pkg lg.
     SourcePackage_init \<lparr>python_major = 3, ctx_depends = [''adduser'']\<rparr>
       \<lparr>arch_tag = ''any'', version_range = Some \<lparr>vr_min = Some ''3.5'', vr_max = None\<rparr>,
        lib_dirs = [], libs = []\<rparr> ''src'' [''python3-six''] True = Inr (pkg, lg) \<and>
     depends pkg = [''python3:any'', ''python3 (>= 3.5~)'', ''python3-six'', ''adduser''] \<and>
     hd (depends pkg) = ''python3:any''"
proof -
  from depends_head_interpreter [of True "\<lparr>python_major = 3, ctx_depends = [''adduser'']\<rparr>"
      "\<lparr>arch_tag = ''any'', version_range = Some \<lparr>vr_min = Some ''3.5'', vr_max = None\<rparr>,
        lib_dirs = [], libs = []\<rparr>" "''src''" "[''python3-six'']"]
  obtain pkg lg where
    "SourcePackage_init \<lparr>python_major = 3, ctx_depends = [''adduser'']\<rparr>
       \<lparr>arch_tag = ''any'', version_range = Some \<lparr>vr_min = Some ''3.5'', vr_max = None\<rparr>,
        lib_dirs = [], libs = []\<rparr> ''src'' [''python3-six''] True = Inr (pkg, lg)"
    and "hd (depends pkg) = interpreter pkg @ '':any''"
    and "depends pkg = last (depends_steps \<lparr>python_major = 3, ctx_depends = [''adduser'']\<rparr>
       \<lparr>arch_tag = ''any'', version_range = Some \<lparr>vr_min = Some ''3.5'', vr_max = None\<rparr>,
        lib_dirs = [], libs = []\<rparr> [''python3-six''])"
    by blast
  then show ?thesis
    by (simp add: SourcePackage_init_def depends_steps_def interpreter_depends_def
        init_interpreter_def Let_def split: prod.splits)
qed

subsection \<open>The matcher\<close>

text \<open>
  Every match consumes at least \<open>min_width\<close> characters. Each of the four patterns has a
  positive width, so \<open>findall\<close> never meets an empty match and always goes on behind a
  match.
\<close>

lemma matches_width:
  "st' \<in> set (matches r st) \<Longrightarrow> length (snd st') + min_width r \<le> length (snd st)"
proof (induction r st arbitrary: st' rule: matches.induct)
  case (5 r st)
  from "5.prems" have "st' \<in> set (concat (map (\<lambda>x. if length (snd x) < length (snd st)
          then matches (Star r) x else []) (matches r st)) @ [st])"
    by (subst (asm) matches.simps(5))
  then consider "st' = st"
    | x where "x \<in> set (matches r st)" "length (snd x) < length (snd st)"
        "st' \<in> set (matches (Star r) x)"
    by (auto split: if_splits)
  then show ?case
  proof cases
    case 1
    then show ?thesis by simp
  next
    case 2
    from "5.IH"(2) [OF 2] 2(2) show ?thesis by simp
  qed
next
  case (3 a b st)
  from "3.prems" obtain x where x: "x \<in> set (matches a st)" "st' \<in> set (matches b x)"
    by auto
  from "3.IH"(1) [OF x(1)] "3.IH"(2) [OF x] show ?case by simp
next
  case (4 a b st)
  from "4.prems" consider "st' \<in> set (matches a st)" | "st' \<in> set (matches b st)"
    by auto
  then show ?case
  proof cases
    case 1
    from "4.IH"(1) [OF 1] show ?thesis by simp
  next
    case 2
    from "4.IH"(2) [OF 2] show ?thesis by simp
  qed
next
  case (6 r st)
  from "6.prems" consider "st' \<in> set (matches r st)" | "st' = st"
    by auto
  then show ?case
  proof cases
    case 1
    from "6.IH" [OF 1] show ?thesis by simp
  next
    case 2
    then show ?thesis by simp
  qed
qed (auto split: list.splits if_splits)

lemma patterns_consume:
  assumes "r \<in> {COPYRIGHT_RE, DPKG_SHLIBS_RE, APT_FILE_RE, SUBSTVARS_RE}"
    and "st' \<in> set (matches r st)"
  shows "length (snd st') < length (snd st)"
proof -
  from assms(1) have "0 < min_width r"
    by (auto simp: COPYRIGHT_RE_def DPKG_SHLIBS_RE_def APT_FILE_RE_def SUBSTVARS_RE_def
        Plus_def Rep_def chr_def chr_i_def ws_def dot_def digit_def numeral_2_eq_2)
  with matches_width [OF assms(2)] show ?thesis by simp
qed

text \<open>
  What a match leaves is a suffix of the input, and a pattern that avoids a character stops
  in front of its first occurrence.
\<close>

lemma matches_suffix:
  "st' \<in> set (matches r st) \<Longrightarrow> \<exists>v. snd st = v @ snd st'"
proof (induction r st arbitrary: st' rule: matches.induct)
  case (3 a b st)
  from "3.prems" obtain x where x: "x \<in> set (matches a st)" "st' \<in> set (matches b x)"
    by auto
  from "3.IH"(1) [OF x(1)] "3.IH"(2) [OF x] show ?case by auto
next
  case (4 a b st)
  from "4.prems" consider "st' \<in> set (matches a st)" | "st' \<in> set (matches b st)"
    by auto
  then show ?case using "4.IH" by cases auto
next
  case (5 r st)
  from "5.prems" have "st' \<in> set (concat (map (\<lambda>x. if length (snd x) < length (snd st)
          then matches (Star r) x else []) (matches r st)) @ [st])"
    by (subst (asm) matches.simps(5))
  then consider "st' = st"
    | x where "x \<in> set (matches r st)" "length (snd x) < length (snd st)"
        "st' \<in> set (matches (Star r) x)"
    by (auto split: if_splits)
  then show ?case
  proof cases
    case 1
    then show ?thesis by simp
  next
    case 2
    from "5.IH"(1) [OF 2(1)] "5.IH"(2) [OF 2] show ?thesis by auto
  qed
next
  case (6 r st)
  from "6.prems" consider "st' \<in> set (matches r st)" | "st' = st"
    by auto
  then show ?case using "6.IH" by cases auto
qed (auto split: list.splits if_splits)

lemma matches_avoids:
  "avoids c r \<Longrightarrow> snd st = a @ c # b \<Longrightarrow> st' \<in> set (matches r st) \<Longrightarrow>
     \<exists>a'. snd st' = a' @ c # b"
proof (induction r st arbitrary: st' a rule: matches.induct)
  case (2 p cap s)
  then show ?case by (cases a) (auto split: if_splits)
next
  case (3 x y st)
  from "3.prems" obtain m where m: "m \<in> set (matches x st)" "st' \<in> set (matches y m)"
    by auto
  from "3.IH"(1) [OF _ "3.prems"(2) m(1)] "3.prems"(1) obtain a1 where "snd m = a1 @ c # b"
    by auto
  from "3.IH"(2) [OF m(1) _ this m(2)] "3.prems"(1) show ?case by auto
next
  case (4 x y st)
  from "4.prems" consider "st' \<in> set (matches x st)" | "st' \<in> set (matches y st)"
    by auto
  then show ?case using "4.IH" "4.prems"(1,2) by cases auto
next
  case (5 r st)
  from "5.prems" have "st' \<in> set (concat (map (\<lambda>x. if length (snd x) < length (snd st)
          then matches (Star r) x else []) (matches r st)) @ [st])"
    by (subst (asm) matches.simps(5))
  then consider "st' = st"
    | m where "m \<in> set (matches r st)" "length (snd m) < length (snd st)"
        "st' \<in> set (matches (Star r) m)"
    by (auto split: if_splits)
  then show ?case
  proof cases
    case 1
    with "5.prems" show ?thesis by auto
  next
    case 2
    from "5.IH"(1) [OF _ "5.prems"(2) 2(1)] "5.prems"(1) obtain a1 where "snd m = a1 @ c # b"
      by auto
    from "5.IH"(2) [OF 2(1,2) "5.prems"(1) this 2(3)] show ?thesis .
  qed
next
  case (6 r st)
  from "6.prems" consider "st' \<in> set (matches r st)" | "st' = st"
    by auto
  then show ?case using "6.IH" "6.prems"(1,2) by cases auto
next
  case (7 r cap s)
  then show ?case by auto
qed (auto split: if_splits)

lemma in_Seq:
  "st' \<in> set (matches (Seq a b) st) \<longleftrightarrow> (\<exists>m \<in> set (matches a st). st' \<in> set (matches b m))"
  by simp

lemma in_Alt:
  "st' \<in> set (matches (Alt a b) st) \<longleftrightarrow> st' \<in> set (matches a st) \<or> st' \<in> set (matches b st)"
  by simp

lemma in_chr_i:
  "m \<in> set (matches (chr_i c) (cap, x # s)) \<longleftrightarrow> lower x = lower c \<and> m = (cap, s)"
  by (auto simp: chr_i_def)

text \<open>A repetition, unfolded one character at a time.\<close>

lemma matches_Star_Nil: "matches (Star r) (cap, []) = [(cap, [])]"
  by (subst matches.simps(5)) simp

lemma matches_Star_Cons:
  "matches (Star r) (cap, x # s) =
     concat (map (\<lambda>st'. if length (snd st') < Suc (length s) then matches (Star r) st' else [])
                 (matches r (cap, x # s))) @ [(cap, x # s)]"
  by (subst matches.simps(5)) simp

lemma matches_Star_Cls_Cons:
  "matches (Star (Cls p)) (cap, x # s) =
     (if p x then matches (Star (Cls p)) (cap, s) else []) @ [(cap, x # s)]"
  by (subst matches.simps(5)) simp

lemma matches_Seq_Nil: "matches a st = [] \<Longrightarrow> matches (Seq a b) st = []"
  by simp

lemma rep_2_4: "Rep r 2 4 = Seq (Seq r (Seq r Eps)) (Opt (Seq r (Opt (Seq r Eps))))"
  by (simp add: Rep_def numeral_2_eq_2)

lemma findall_no_match:
  assumes "matches r (None, x # s) = []"
  shows "findall r (x # s) = findall r s"
  by (subst findall.simps) (simp add: assms)

lemma findall_match:
  assumes "matches r (None, s) = (Some g, s') # rest" and "length s' < length s"
  shows "findall r s = g # findall r s'"
  by (subst findall.simps) (simp add: assms)

lemma findall_hit:
  assumes "matches r (None, s) = (cp, s') # others" and "length s' < length s"
  shows "findall r s = (case cp of None \<Rightarrow> [] | Some g \<Rightarrow> g) # findall r s'"
  by (subst findall.simps) (simp add: assms)


subsection \<open>Copyright statements\<close>

text \<open>
  C6, as the specification states it, fails. On the sentence alone the capture keeps the
  comma and the blank behind the name; nothing trims it. And a text that contains the
  sentence behind an earlier marker on the same line yields one capture that swallows the
  sentence's own marker.
\<close>

theorem copyright_capture_counterexample:
  "findall COPYRIGHT_RE ''Copyright (c) 2020 Jane Doe, All rights reserved.'' \<noteq> [''2020 Jane Doe''] \<and>
   ''2020 Jane Doe'' \<notin> set (findall COPYRIGHT_RE ''Copyright (c) 2020 Jane Doe, All rights reserved.'') \<and>
   findall COPYRIGHT_RE ''Copyright 1999, Copyright (c) 2020 Jane Doe, All rights reserved.'' =
     [''1999, Copyright (c) 2020 Jane Doe, '']"
proof -
  have a: "findall COPYRIGHT_RE ''Copyright (c) 2020 Jane Doe, All rights reserved.'' = [''2020 Jane Doe, '']"
    by code_simp
  have b: "findall COPYRIGHT_RE ''Copyright 1999, Copyright (c) 2020 Jane Doe, All rights reserved.'' =
     [''1999, Copyright (c) 2020 Jane Doe, '']"
    by code_simp
  show ?thesis by (simp add: a b)
qed

text \<open>
  Towards the amended claim: no match starts at a character that is none of \<open>c\<close>, \<open>C\<close>,
  \<open>(\<close> and the copyright sign when only such characters and then a character that is not a
  blank follow; and a lookahead for a letter succeeds when a letter follows on the line.
\<close>

lemma lower_c: "lower x = CHR ''c'' \<longleftrightarrow> x = CHR ''c'' \<or> x = CHR ''C''"
  by (auto simp: lower_def split: option.splits if_splits)

lemma lower_paren: "lower x = CHR ''('' \<longleftrightarrow> x = CHR ''(''"
  by (auto simp: lower_def split: option.splits if_splits)

lemma lower_lit: "lower CHR ''c'' = CHR ''c''" "lower CHR ''('' = CHR ''(''"
  by (simp_all add: lower_def)

lemma look_letter:
  assumes "\<forall>c \<in> set u. c \<noteq> CHR 0x0A" and "p x"
  shows "matches (Seq (Star dot) (Cls p)) (cap, u @ x # v) \<noteq> []"
  using assms(1)
proof (induction u)
  case Nil
  have "matches (Seq (Star dot) (Cls p)) (cap, x # v) =
          concat (map (matches (Cls p)) (matches (Star dot) (cap, x # v)))"
    by simp
  moreover have "\<exists>ys. matches (Star dot) (cap, x # v) = ys @ [(cap, x # v)]"
    by (simp add: dot_def add: matches_Star_Cls_Cons)
  ultimately show ?case using assms(2) by auto
next
  case (Cons y u)
  then have y: "y \<noteq> CHR 0x0A" and ih: "matches (Seq (Star dot) (Cls p)) (cap, u @ x # v) \<noteq> []"
    by simp_all
  have "matches (Star dot) (cap, (y # u) @ x # v) =
          matches (Star dot) (cap, u @ x # v) @ [(cap, (y # u) @ x # v)]"
    using y by (simp add: dot_def add: matches_Star_Cls_Cons)
  then show ?case using ih by simp
qed

lemma star_ws_then_fails:
  assumes r: "\<And>cap c s. \<not> B c \<Longrightarrow> matches r (cap, c # s) = []"
    and u: "\<forall>c \<in> set u. \<not> B c" and y: "\<not> B y" "\<not> is_space y"
  shows "matches (Seq (Star ws) r) (cap, u @ y # v) = []"
  using u
proof (induction u)
  case Nil
  have "matches (Star ws) (cap, y # v) = [(cap, y # v)]"
    using y(2) by (simp add: ws_def add: matches_Star_Cls_Cons)
  then show ?case using r [OF y(1)] by simp
next
  case (Cons x u)
  then have x: "\<not> B x" and ih: "matches (Seq (Star ws) r) (cap, u @ y # v) = []"
    by simp_all
  have "matches (Star ws) (cap, (x # u) @ y # v) =
          (if is_space x then matches (Star ws) (cap, u @ y # v) else []) @ [(cap, (x # u) @ y # v)]"
    by (simp add: ws_def add: matches_Star_Cls_Cons)
  then show ?case using ih r [OF x] by simp
qed

lemma copyright_no_match_prefix:
  assumes x: "x \<notin> {CHR ''c'', CHR ''C'', CHR ''('', CHR 0xA9}"
    and u: "\<forall>c \<in> set u. c \<notin> {CHR ''c'', CHR ''C'', CHR ''('', CHR 0xA9}"
    and y: "y \<noteq> CHR ''(''" "y \<noteq> CHR 0xA9" "\<not> is_space y"
  shows "matches COPYRIGHT_RE (cap, x # u @ y # v) = []"
proof -
  let ?st = "(cap, (x # u) @ y # v)"
  have a1: "matches (Seq (lit_i ''copyright'') (Opt (chr_i CHR ''s''))) ?st = []"
    using x by (simp add: chr_i_def lower_lit lower_c)
  have a2: "matches (Seq (Star ws) (chr CHR 0xA9)) ?st = []"
  proof (rule star_ws_then_fails [where B = "\<lambda>c. c = CHR 0xA9"])
    show "matches (chr CHR 0xA9) (cap', c # s) = []" if "c \<noteq> CHR 0xA9" for cap' c s
      using that by (simp add: chr_def)
    show "\<forall>c \<in> set (x # u). c \<noteq> CHR 0xA9" using x u by auto
    show "y \<noteq> CHR 0xA9" by (rule y)
    show "\<not> is_space y" by (rule y)
  qed
  have a3: "matches (Seq (Star ws) (lit_i ''(c)'')) ?st = []"
  proof (rule star_ws_then_fails [where B = "\<lambda>c. c = CHR ''(''"])
    show "matches (lit_i ''(c)'') (cap', c # s) = []" if "c \<noteq> CHR ''(''" for cap' c s
      using that by (simp add: chr_i_def lower_lit lower_paren)
    show "\<forall>c \<in> set (x # u). c \<noteq> CHR ''(''" using x u by auto
    show "y \<noteq> CHR ''(''" by (rule y)
    show "\<not> is_space y" by (rule y)
  qed
  have "matches (Alt (Seq (lit_i ''copyright'') (Opt (chr_i CHR ''s'')))
          (Alt (Seq (Star ws) (chr CHR 0xA9)) (Seq (Star ws) (lit_i ''(c)'')))) ?st = []"
    by (simp only: matches.simps(4) a1 a2 a3 append_Nil)
  then show ?thesis
    unfolding COPYRIGHT_RE_def by (simp only: append_Cons matches_Seq_Nil)
qed

lemma copyright_scan_prefix:
  assumes "\<forall>c \<in> set pre. c \<notin> {CHR ''c'', CHR ''C'', CHR ''('', CHR 0xA9}"
    and y: "y \<noteq> CHR ''(''" "y \<noteq> CHR 0xA9" "\<not> is_space y"
  shows "findall COPYRIGHT_RE (pre @ y # v) = findall COPYRIGHT_RE (y # v)"
  using assms(1)
proof (induction pre)
  case Nil
  show ?case by simp
next
  case (Cons x pre)
  then have "matches COPYRIGHT_RE (None, x # pre @ y # v) = []"
    by (intro copyright_no_match_prefix y) simp_all
  then have "findall COPYRIGHT_RE ((x # pre) @ y # v) = findall COPYRIGHT_RE (pre @ y # v)"
    by (simp add: findall_no_match)
  with Cons show ?case by simp
qed

lemma copyright_sentence:
  "findall COPYRIGHT_RE (''Copyright (c) 2020 Jane Doe, All rights reserved.'' @ post) =
     ''2020 Jane Doe, '' # findall COPYRIGHT_RE (''All rights reserved.'' @ post)"
proof -
  define L where "L = Seq (Star dot) (Cls (\<lambda>c. lower c \<in> set ''abcdefghijklmnopqrstuvwxyz''))"
  have C: "COPYRIGHT_RE =
    Seq (Alt (Seq (lit_i ''copyright'') (Opt (chr_i CHR ''s'')))
        (Alt (Seq (Star ws) (chr CHR 0xA9))
             (Seq (Star ws) (lit_i ''(c)''))))
   (Seq (Star (Cls (\<lambda>c. is_space c \<or> c \<in> set '':|,'')))
        (Group
          (Seq (Look L)
          (Seq (Rep digit 2 4)
               (Plus (Seq (NegLook (Seq (lit_i ''all'') (Seq ws (lit_i ''rights'')))) dot))))))"
    unfolding COPYRIGHT_RE_def L_def ..
  have look: "matches L (cap, u @ CHR ''J'' # v) \<noteq> []" if "\<forall>c \<in> set u. c \<noteq> CHR 0x0A" for cap u v
    unfolding L_def using that by (intro look_letter) (simp_all add: lower_def)
  have l1: "matches L (cap, ''(c) 2020 Jane Doe, All rights reserved.'' @ post) \<noteq> []" for cap
    using look [of "''(c) 2020 ''" cap "''ane Doe, All rights reserved.'' @ post"] by simp
  have l2: "matches L (cap, '' (c) 2020 Jane Doe, All rights reserved.'' @ post) \<noteq> []" for cap
    using look [of "'' (c) 2020 ''" cap "''ane Doe, All rights reserved.'' @ post"] by simp
  have l3: "matches L (cap, ''2020 Jane Doe, All rights reserved.'' @ post) \<noteq> []" for cap
    using look [of "''2020 ''" cap "''ane Doe, All rights reserved.'' @ post"] by simp
  have l4: "matches L (cap, '' 2020 Jane Doe, All rights reserved.'' @ post) \<noteq> []" for cap
    using look [of "'' 2020 ''" cap "''ane Doe, All rights reserved.'' @ post"] by simp
  note ev = C rep_2_4 matches_Star_Cons matches_Star_Nil chr_i_def chr_def dot_def ws_def digit_def
    Plus_def is_space_def is_digit_def lower_def
  have p0: "matches COPYRIGHT_RE (None, ''Copyright (c) 2020 Jane Doe, All rights reserved.'' @ post) = []"
    using l1 l2 by (simp add: ev)
  have scan: "findall COPYRIGHT_RE (''opyrigh'' @ CHR ''t'' # '' (c) 2020 Jane Doe, All rights reserved.'' @ post) =
      findall COPYRIGHT_RE (CHR ''t'' # '' (c) 2020 Jane Doe, All rights reserved.'' @ post)"
    by (rule copyright_scan_prefix) (simp_all add: is_space_def)
  have p8: "matches COPYRIGHT_RE (None, ''t (c) 2020 Jane Doe, All rights reserved.'' @ post) = []"
    by (simp add: ev)
  have p9: "\<exists>rest. matches COPYRIGHT_RE (None, '' (c) 2020 Jane Doe, All rights reserved.'' @ post) =
      (Some ''2020 Jane Doe, '', ''All rights reserved.'' @ post) # rest"
    using l3 l4 by (simp add: ev)
  then obtain rest where hit: "matches COPYRIGHT_RE (None, '' (c) 2020 Jane Doe, All rights reserved.'' @ post) =
      (Some ''2020 Jane Doe, '', ''All rights reserved.'' @ post) # rest"
    by blast
  have "findall COPYRIGHT_RE (''Copyright (c) 2020 Jane Doe, All rights reserved.'' @ post) =
        findall COPYRIGHT_RE (''opyright (c) 2020 Jane Doe, All rights reserved.'' @ post)"
    using findall_no_match [OF p0 [simplified]] by simp
  also have "\<dots> = findall COPYRIGHT_RE (''t (c) 2020 Jane Doe, All rights reserved.'' @ post)"
    using scan by simp
  also have "\<dots> = findall COPYRIGHT_RE ('' (c) 2020 Jane Doe, All rights reserved.'' @ post)"
    using findall_no_match [OF p8 [simplified]] by simp
  also have "\<dots> = ''2020 Jane Doe, '' # findall COPYRIGHT_RE (''All rights reserved.'' @ post)"
    by (rule findall_match [OF hit]) simp
  finally show ?thesis .
qed

lemma copyright_clause_skipped:
  "findall COPYRIGHT_RE (''All rights reserved.'' @ post) = findall COPYRIGHT_RE post"
proof -
  have "findall COPYRIGHT_RE (''All rights reserved'' @ CHR ''.'' # post) =
          findall COPYRIGHT_RE (CHR ''.'' # post)"
    by (rule copyright_scan_prefix) (simp_all add: is_space_def)
  moreover have "matches COPYRIGHT_RE (None, CHR ''.'' # post) = []"
    by (simp add: COPYRIGHT_RE_def matches_Star_Cons chr_i_def chr_def ws_def is_space_def lower_def)
  ultimately show ?thesis by (simp add: findall_no_match)
qed

text \<open>
  A match that starts before the sentence ends before it when every year before the
  sentence (two adjacent digits) is followed by a line break: the markers and separators
  cannot reach into the sentence, the statement has to start with two digits, and from
  there it stays on its line.
\<close>

lemma lower_C: "lower CHR ''C'' = CHR ''c''"
  by (simp add: lower_def)

lemma group_needs_digits:
  assumes "st' \<in> set (matches (Group (Seq (Look l) (Seq (Rep digit 2 4) x))) (cap, s))"
  shows "\<exists>d1 d2 s1. s = d1 # d2 # s1 \<and> is_digit d1 \<and> is_digit d2"
proof -
  from assms obtain m where "m \<in> set (matches (Seq (Rep digit 2 4) x) (cap, s))"
    by (auto split: if_splits)
  then obtain m' where "m' \<in> set (matches (Seq digit (Seq digit Eps)) (cap, s))"
    by (auto simp: rep_2_4)
  then show ?thesis
    by (auto simp: digit_def split: list.splits if_splits)
qed

lemma head_stays:
  assumes u: "u \<noteq> []"
    and m: "st' \<in> set (matches
      (Alt (Seq (lit_i ''copyright'') (Opt (chr_i CHR ''s'')))
        (Alt (Seq (Star ws) (chr CHR 0xA9))
             (Seq (Star ws) (lit_i ''(c)'')))) (cap, u @ CHR ''C'' # CHR ''o'' # t))"
  shows "\<exists>w. snd st' = w @ CHR ''C'' # CHR ''o'' # t"
proof -
  let ?T = "CHR ''C'' # CHR ''o'' # t"
  from m consider
      (a1) "st' \<in> set (matches (Seq (lit_i ''copyright'') (Opt (chr_i CHR ''s''))) (cap, u @ ?T))"
    | (a2) "st' \<in> set (matches (Seq (Star ws) (chr CHR 0xA9)) (cap, u @ ?T))"
    | (a3) "st' \<in> set (matches (Seq (Star ws) (lit_i ''(c)'')) (cap, u @ ?T))"
    unfolding in_Alt by blast
  then show ?thesis
  proof cases
    case a1
    from u obtain x u' where xu: "u = x # u'" by (cases u) auto
    have split: "lit_i ''copyright'' = Seq (chr_i CHR ''c'') (lit_i ''opyright'')" by simp
    have av: "avoids CHR ''C'' (lit_i ''opyright'')"
      by (simp add: chr_i_def lower_def)
    have av': "avoids CHR ''C'' (Opt (chr_i CHR ''s''))"
      by (simp add: chr_i_def lower_def)
    from a1 obtain m1 where m1: "m1 \<in> set (matches (lit_i ''copyright'') (cap, u @ ?T))"
      "st' \<in> set (matches (Opt (chr_i CHR ''s'')) m1)"
      unfolding in_Seq by blast
    from m1(1) have "m1 \<in> set (matches (Seq (chr_i CHR ''c'') (lit_i ''opyright''))
        (cap, x # u' @ ?T))"
      by (simp only: split xu append_Cons)
    then obtain m0 where "m0 \<in> set (matches (chr_i CHR ''c'') (cap, x # u' @ ?T))"
      "m1 \<in> set (matches (lit_i ''opyright'') m0)"
      unfolding in_Seq by blast
    then have "m1 \<in> set (matches (lit_i ''opyright'') (cap, u' @ ?T))"
      by (simp add: in_chr_i del: lit_i.simps)
    from matches_avoids [OF av _ this] obtain w where "snd m1 = w @ ?T" by auto
    from matches_avoids [OF av' this m1(2)] show ?thesis .
  next
    case a2
    have av: "avoids CHR ''C'' (Seq (Star ws) (chr CHR 0xA9))"
      by (simp add: ws_def chr_def is_space_def)
    from matches_avoids [OF av _ a2] show ?thesis by simp
  next
    case a3
    from a3 obtain mm where mm: "mm \<in> set (matches (Star ws) (cap, u @ ?T))"
      "st' \<in> set (matches (lit_i ''(c)'') mm)"
      unfolding in_Seq by blast
    have av: "avoids CHR ''C'' (Star ws)"
      by (simp add: ws_def is_space_def)
    from matches_avoids [OF av _ mm(1)] obtain w1 where w1: "snd mm = w1 @ ?T" by auto
    obtain c1 where mm_eq: "mm = (c1, w1 @ ?T)" using w1 by (cases mm) auto
    have av2: "avoids CHR ''C'' (lit_i '')'')"
      by (simp add: chr_i_def lower_def)
    have split: "lit_i ''(c)'' = Seq (chr_i CHR ''('') (Seq (chr_i CHR ''c'') (lit_i '')''))"
      by simp
    from mm(2) obtain n1 n2 where n: "n1 \<in> set (matches (chr_i CHR ''('') (c1, w1 @ ?T))"
      "n2 \<in> set (matches (chr_i CHR ''c'') n1)" "st' \<in> set (matches (lit_i '')'') n2)"
      unfolding split in_Seq mm_eq by blast
    show ?thesis
    proof (cases w1)
      case Nil
      with n(1) show ?thesis by (simp add: in_chr_i lower_def)
    next
      case (Cons x w2)
      with n(1) have n1: "n1 = (c1, w2 @ ?T)" by (simp add: in_chr_i)
      show ?thesis
      proof (cases w2)
        case Nil
        with n(2) n1 have "n2 = (c1, CHR ''o'' # t)" by (simp add: in_chr_i)
        with n(3) show ?thesis by (simp add: in_chr_i lower_def)
      next
        case (Cons y w3)
        with n(2) n1 have "n2 = (c1, w3 @ ?T)" by (simp add: in_chr_i)
        with n(3) have "st' \<in> set (matches (lit_i '')'') (c1, w3 @ ?T))" by simp
        from matches_avoids [OF av2 _ this] show ?thesis by simp
      qed
    qed
  qed
qed

lemma copyright_match_stays:
  assumes years: "\<forall>v d1 d2 w. pre = v @ d1 # d2 # w \<and> is_digit d1 \<and> is_digit d2 \<longrightarrow> CHR 0x0A \<in> set w"
    and u: "pre = v0 @ u" "u \<noteq> []"
    and m: "st' \<in> set (matches COPYRIGHT_RE (cap, u @ CHR ''C'' # CHR ''o'' # t))"
  shows "\<exists>w. snd st' = w @ CHR ''C'' # CHR ''o'' # t"
proof -
  let ?T = "CHR ''C'' # CHR ''o'' # t"
  let ?seps = "Star (Cls (\<lambda>c. is_space c \<or> c \<in> set '':|,''))"
  let ?grp = "Group
          (Seq (Look (Seq (Star dot) (Cls (\<lambda>c. lower c \<in> set ''abcdefghijklmnopqrstuvwxyz''))))
          (Seq (Rep digit 2 4)
               (Plus (Seq (NegLook (Seq (lit_i ''all'') (Seq ws (lit_i ''rights'')))) dot))))"
  from m obtain s1 s2 where
    s1: "s1 \<in> set (matches
      (Alt (Seq (lit_i ''copyright'') (Opt (chr_i CHR ''s'')))
        (Alt (Seq (Star ws) (chr CHR 0xA9))
             (Seq (Star ws) (lit_i ''(c)'')))) (cap, u @ ?T))"
    and s2: "s2 \<in> set (matches ?seps s1)"
    and g: "st' \<in> set (matches ?grp s2)"
    unfolding COPYRIGHT_RE_def in_Seq by blast
  from head_stays [OF u(2) s1] obtain w1 where w1: "snd s1 = w1 @ ?T" by blast
  have av: "avoids CHR ''C'' ?seps" by (simp add: is_space_def)
  from matches_avoids [OF av w1 s2] obtain w2 where w2: "snd s2 = w2 @ ?T" by blast
  obtain c2 where s2_eq: "s2 = (c2, w2 @ ?T)" using w2 by (cases s2) auto
  from matches_suffix [OF s1] matches_suffix [OF s2] w1 w2
  obtain va where "u @ ?T = va @ w2 @ ?T" by auto
  then have "u @ ?T = (va @ w2) @ ?T" by simp
  then have uw: "u = va @ w2" by (simp only: append_same_eq)
  from g s2_eq group_needs_digits obtain d1 d2 r where
    d: "w2 @ ?T = d1 # d2 # r" "is_digit d1" "is_digit d2"
    by blast
  have nd: "\<not> is_digit CHR ''C''" by (simp add: is_digit_def)
  from d nd obtain w3 where w3: "w2 = d1 # d2 # w3"
    by (cases w2; cases "tl w2") auto
  with u(1) uw have "pre = (v0 @ va) @ d1 # d2 # w3" by simp
  with years d(2,3) have "CHR 0x0A \<in> set w3" by blast
  then obtain a b where ab: "w3 = a @ CHR 0x0A # b" by (auto dest: split_list)
  have avn: "avoids CHR 0x0A ?grp"
    by (simp add: rep_2_4 Plus_def digit_def dot_def is_digit_def)
  have "snd s2 = (d1 # d2 # a) @ CHR 0x0A # (b @ ?T)"
    by (simp add: w2 w3 ab)
  from matches_avoids [OF avn this g] obtain a' where "snd st' = a' @ CHR 0x0A # (b @ ?T)"
    by blast
  then have "snd st' = (a' @ CHR 0x0A # b) @ ?T" by simp
  then show ?thesis by blast
qed

lemma suffix_behind:
  assumes "x @ t = v @ r" and "length t \<le> length r"
  shows "\<exists>w. r = w @ t \<and> x = v @ w"
proof -
  from assms(1) have "length x + length t = length v + length r"
    by (metis length_append)
  with assms(2) have "length v \<le> length x" by simp
  with assms(1) obtain w where "x = v @ w"
    by (metis append_eq_append_conv_if append_take_drop_id)
  with assms(1) show ?thesis by auto
qed

lemma copyright_scan_arrives:
  assumes stays: "\<forall>v u. pre = v @ u \<and> u \<noteq> [] \<longrightarrow>
      (case matches COPYRIGHT_RE (None, u @ t) of
         [] \<Rightarrow> True
       | st # _ \<Rightarrow> length t \<le> length (snd st))"
  shows "pre = v0 @ u \<Longrightarrow> \<exists>ys. findall COPYRIGHT_RE (u @ t) = ys @ findall COPYRIGHT_RE t"
proof (induction u arbitrary: v0 rule: length_induct)
  case (1 u)
  show ?case
  proof (cases u)
    case Nil
    then show ?thesis by simp
  next
    case (Cons x u')
    show ?thesis
    proof (cases "matches COPYRIGHT_RE (None, u @ t)")
      case Nil
      then have "findall COPYRIGHT_RE (u @ t) = findall COPYRIGHT_RE (u' @ t)"
        using Cons by (simp add: findall_no_match)
      moreover from "1.prems" Cons have "pre = (v0 @ [x]) @ u'" by simp
      with "1.IH" Cons have "\<exists>ys. findall COPYRIGHT_RE (u' @ t) = ys @ findall COPYRIGHT_RE t"
        by (metis length_Cons lessI)
      ultimately show ?thesis by simp
    next
      case (Cons st others)
      then have st: "st \<in> set (matches COPYRIGHT_RE (None, u @ t))" by simp
      have ne: "u \<noteq> []" using \<open>u = x # u'\<close> by simp
      from stays "1.prems" ne Cons have len: "length t \<le> length (snd st)" by fastforce
      from matches_suffix [OF st] obtain v where "u @ t = v @ snd st" by auto
      from suffix_behind [OF this len] obtain w where w: "snd st = w @ t" and uvw: "u = v @ w"
        by blast
      from patterns_consume [OF _ st] have lt: "length (snd st) < length (u @ t)" by simp
      with w have "length w < length u" by simp
      moreover from "1.prems" uvw have "pre = (v0 @ v) @ w" by simp
      ultimately have "\<exists>ys. findall COPYRIGHT_RE (w @ t) = ys @ findall COPYRIGHT_RE t"
        using "1.IH" by blast
      moreover obtain cp where "st = (cp, w @ t)" using w by (cases st) auto
      with Cons lt have "findall COPYRIGHT_RE (u @ t) =
          (case cp of None \<Rightarrow> [] | Some g \<Rightarrow> g) # findall COPYRIGHT_RE (w @ t)"
        by (intro findall_hit) auto
      ultimately show ?thesis by (metis append_Cons)
    qed
  qed
qed

lemma years_end_at_line_start:
  assumes "pre \<noteq> []" "last pre = CHR 0x0A"
  shows "\<forall>v d1 d2 w. pre = v @ d1 # d2 # w \<and> is_digit d1 \<and> is_digit d2 \<longrightarrow> CHR 0x0A \<in> set w"
proof (intro allI impI)
  fix v d1 d2 w
  assume a: "pre = v @ d1 # d2 # w \<and> is_digit d1 \<and> is_digit d2"
  have nd: "\<not> is_digit CHR 0x0A" by (simp add: is_digit_def)
  show "CHR 0x0A \<in> set w"
  proof (cases w)
    case Nil
    with a assms(2) have "d2 = CHR 0x0A" by simp
    with a nd show ?thesis by simp
  next
    case (Cons x w')
    with a assms(2) have "last w = CHR 0x0A" by simp
    with Cons show ?thesis by (metis last_in_set list.distinct(1))
  qed
qed

text \<open>
  C6, amended. In every license text where no match of the pattern that starts before the
  sentence reaches into the sentence, the sentence yields the capture \<open>2020 Jane Doe, \<close>:
  the statement with the comma and the blank that follow it, not trimmed. The clause
  \<open>All rights reserved.\<close> is excluded and yields no capture. The result is the captures
  found before the sentence, then this one, then those of the text behind the sentence.
  No match reaches into the sentence when no year (two adjacent digits) stands before the
  sentence on the sentence's own line.
\<close>

theorem copyright_capture:
  "((\<forall>v u. pre = v @ u \<and> u \<noteq> [] \<longrightarrow>
       (case matches COPYRIGHT_RE
               (None, u @ ''Copyright (c) 2020 Jane Doe, All rights reserved.'' @ post) of
          [] \<Rightarrow> True
        | st # _ \<Rightarrow>
            length (''Copyright (c) 2020 Jane Doe, All rights reserved.'' @ post) \<le> length (snd st))) \<longrightarrow>
    (\<exists>ys. findall COPYRIGHT_RE (pre @ ''Copyright (c) 2020 Jane Doe, All rights reserved.'' @ post) =
           ys @ ''2020 Jane Doe, '' # findall COPYRIGHT_RE post)) \<and>
   ((\<forall>v d1 d2 w. pre = v @ d1 # d2 # w \<and> is_digit d1 \<and> is_digit d2 \<longrightarrow> CHR 0x0A \<in> set w) \<longrightarrow>
    (\<forall>v u. pre = v @ u \<and> u \<noteq> [] \<longrightarrow>
       (case matches COPYRIGHT_RE
               (None, u @ ''Copyright (c) 2020 Jane Doe, All rights reserved.'' @ post) of
          [] \<Rightarrow> True
        | st # _ \<Rightarrow>
            length (''Copyright (c) 2020 Jane Doe, All rights reserved.'' @ post) \<le> length (snd st))))"
proof -
  let ?S = "''Copyright (c) 2020 Jane Doe, All rights reserved.''"
  have capture: "\<exists>ys. findall COPYRIGHT_RE (pre @ ?S @ post) =
           ys @ ''2020 Jane Doe, '' # findall COPYRIGHT_RE post"
    if stays: "\<forall>v u. pre = v @ u \<and> u \<noteq> [] \<longrightarrow>
       (case matches COPYRIGHT_RE (None, u @ ?S @ post) of
          [] \<Rightarrow> True
        | st # _ \<Rightarrow> length (?S @ post) \<le> length (snd st))"
  proof -
    have "pre = [] @ pre" by simp
    from copyright_scan_arrives [OF stays this]
    obtain ys where "findall COPYRIGHT_RE (pre @ ?S @ post) =
        ys @ findall COPYRIGHT_RE (?S @ post)"
      by blast
    also have "findall COPYRIGHT_RE (?S @ post) =
        ''2020 Jane Doe, '' # findall COPYRIGHT_RE (''All rights reserved.'' @ post)"
      by (rule copyright_sentence)
    also have "findall COPYRIGHT_RE (''All rights reserved.'' @ post) = findall COPYRIGHT_RE post"
      by (rule copyright_clause_skipped)
    finally show ?thesis by blast
  qed
  have stays: "case matches COPYRIGHT_RE (None, u @ ?S @ post) of
          [] \<Rightarrow> True
        | st # _ \<Rightarrow> length (?S @ post) \<le> length (snd st)"
    if years: "\<forall>v d1 d2 w. pre = v @ d1 # d2 # w \<and> is_digit d1 \<and> is_digit d2 \<longrightarrow>
        CHR 0x0A \<in> set w"
      and u: "pre = v @ u \<and> u \<noteq> []" for v u
  proof (cases "matches COPYRIGHT_RE (None, u @ ?S @ post)")
    case Nil
    then show ?thesis by simp
  next
    case (Cons st others)
    then have "st \<in> set (matches COPYRIGHT_RE
        (None, u @ CHR ''C'' # CHR ''o'' # ''pyright (c) 2020 Jane Doe, All rights reserved.'' @ post))"
      by simp
    from copyright_match_stays [OF years _ _ this] u
    obtain w where "snd st = w @ ?S @ post" by auto
    with Cons show ?thesis by simp
  qed
  from capture stays show ?thesis by blast
qed

theorem copyright_capture_witness:
  "last (''Copyright 2019 Bob'' @ [CHR 0x0A]) = CHR 0x0A \<and>
   (\<exists>ys. findall COPYRIGHT_RE
      ((''Copyright 2019 Bob'' @ [CHR 0x0A]) @ ''Copyright (c) 2020 Jane Doe, All rights reserved.'' @ []) =
      ys @ [''2020 Jane Doe, '']) \<and>
   findall COPYRIGHT_RE
      ((''Copyright 2019 Bob'' @ [CHR 0x0A]) @ ''Copyright (c) 2020 Jane Doe, All rights reserved.'' @ []) =
      [''2019 Bob'', ''2020 Jane Doe, '']"
proof -
  let ?pre = "''Copyright 2019 Bob'' @ [CHR 0x0A]"
  have l: "last ?pre = CHR 0x0A" by simp
  have n: "?pre \<noteq> []" by simp
  note h = years_end_at_line_start [OF n l]
  note t = copyright_capture [of ?pre "[]"]
  note stays = t [THEN conjunct2, THEN mp, OF h]
  note cap = t [THEN conjunct1, THEN mp, OF stays]
  have e: "findall COPYRIGHT_RE [] = []" by code_simp
  from cap e
  have c: "\<exists>ys. findall COPYRIGHT_RE
      (?pre @ ''Copyright (c) 2020 Jane Doe, All rights reserved.'' @ []) = ys @ [''2020 Jane Doe, '']"
    by simp
  have f: "findall COPYRIGHT_RE
      (?pre @ ''Copyright (c) 2020 Jane Doe, All rights reserved.'' @ []) =
      [''2019 Bob'', ''2020 Jane Doe, '']"
    by code_simp
  from l c f show ?thesis by (intro conjI)
qed

lemma gather_copyrights_eq:
  "gather_copyrights contents acc = acc \<union> (\<Union>c \<in> set contents. set (findall COPYRIGHT_RE c))"
  by (induction contents arbitrary: acc) auto

text \<open>
  C7. The copyright statements depend only on the set of the license texts, not on their
  order or repetition; with at least one license they are the captures of all the texts,
  without duplicates and sorted in ascending lexicographic order.
\<close>

theorem copyright_statements_order:
  assumes "set texts = set texts'"
  shows "copyright_statements texts = copyright_statements texts' \<and>
         (texts \<noteq> [] \<longrightarrow>
            (\<exists>cs. copyright_statements texts = Some cs \<and> distinct cs \<and> sorted cs \<and>
                  set cs = (\<Union>t \<in> set texts. set (findall COPYRIGHT_RE t))))"
proof -
  have fin: "finite (\<Union>t \<in> set texts. set (findall COPYRIGHT_RE t))" by simp
  from assms have "texts = [] \<longleftrightarrow> texts' = []" by auto
  with assms have "copyright_statements texts = copyright_statements texts'"
    by (simp add: copyright_statements_def gather_copyrights_eq)
  moreover have "\<exists>cs. copyright_statements texts = Some cs \<and> distinct cs \<and> sorted cs \<and>
                  set cs = (\<Union>t \<in> set texts. set (findall COPYRIGHT_RE t))" if "texts \<noteq> []"
    using that fin by (simp add: copyright_statements_def gather_copyrights_eq)
  ultimately show ?thesis by blast
qed

theorem copyright_statements_order_witness:
  "set [''(c) 2020 Alice'', ''Copyright 2019 Bob''] =
     set [''Copyright 2019 Bob'', ''(c) 2020 Alice'', ''Copyright 2019 Bob''] \<and>
   copyright_statements [''(c) 2020 Alice'', ''Copyright 2019 Bob''] = Some [''2019 Bob'', ''2020 Alice''] \<and>
   copyright_statements [''Copyright 2019 Bob'', ''(c) 2020 Alice'', ''Copyright 2019 Bob''] =
     Some [''2019 Bob'', ''2020 Alice'']"
proof -
  let ?a = "[''(c) 2020 Alice'', ''Copyright 2019 Bob'']"
  let ?b = "[''Copyright 2019 Bob'', ''(c) 2020 Alice'', ''Copyright 2019 Bob'']"
  have s: "set ?a = set ?b" by (simp add: insert_commute)
  have e: "copyright_statements ?a = Some [''2019 Bob'', ''2020 Alice'']"
    by code_simp
  note t = copyright_statements_order [OF s, THEN conjunct1]
  from t e have "copyright_statements ?b = Some [''2019 Bob'', ''2020 Alice'']" by simp
  with s e show ?thesis by (intro conjI)
qed

subsection \<open>Shared library dependencies\<close>

text \<open>
  C1. When \<open>substvars\<close> exists and its content parses to at least one package, the method
  returns the world as it found it: no command line is passed to \<open>shell\<close>, neither the
  analyzer's nor the file index's, whatever \<open>shell\<close> would do. The packages parsed from the
  file, each followed by a colon and the architecture, are what is added to \<open>build_deps\<close>.
\<close>

theorem substvars_cache_hit:
  assumes "substvars w = Some text" and "findall SUBSTVARS_RE (drop 15 text) \<noteq> []"
  shows "search_shlibs_deps ext pkg w =
           Inr (pkg\<lparr>build_deps := build_deps pkg \<union>
                      (\<lambda>p. p @ '':'' @ arch pkg) ` set (findall SUBSTVARS_RE (drop 15 text))\<rparr>, w)"
  using assms by (simp add: search_shlibs_deps_def parse_substvars_def Let_def)

theorem substvars_cache_hit_witness:
  "substvars \<lparr>substvars = Some (''shlibs:Depends=libc6 (>= 2.4), libfoo1 (>= 1.0)'' @ [CHR 0x0A]),
              calls = [], logs = []\<rparr> =
     Some (''shlibs:Depends=libc6 (>= 2.4), libfoo1 (>= 1.0)'' @ [CHR 0x0A]) \<and>
   findall SUBSTVARS_RE (drop 15 (''shlibs:Depends=libc6 (>= 2.4), libfoo1 (>= 1.0)'' @ [CHR 0x0A])) =
     [''libc6'', ''libfoo1''] \<and>
   search_shlibs_deps
     \<lparr>shell = (\<lambda>args file. Inl OSError), set_order = remdups, joinpath = (\<lambda>a b. a @ ''/'' @ b)\<rparr>
     \<lparr>arch = ''amd64'', interpreter = ''python3'', depends = [''python3:any''],
      build_deps = {''debhelper''}, install_path = ''/usr/lib/python3/dist-packages/'',
      pkg_wheel = \<lparr>arch_tag = ''linux_x86_64'', version_range = None,
                   lib_dirs = [''foo.libs''], libs = [''foo.libs/libbar.so'']\<rparr>,
      src = ''src''\<rparr>
     \<lparr>substvars = Some (''shlibs:Depends=libc6 (>= 2.4), libfoo1 (>= 1.0)'' @ [CHR 0x0A]),
      calls = [], logs = []\<rparr> =
   Inr (\<lparr>arch = ''amd64'', interpreter = ''python3'', depends = [''python3:any''],
        build_deps = {''debhelper''} \<union> {''libc6:amd64'', ''libfoo1:amd64''},
        install_path = ''/usr/lib/python3/dist-packages/'',
        pkg_wheel = \<lparr>arch_tag = ''linux_x86_64'', version_range = None,
                     lib_dirs = [''foo.libs''], libs = [''foo.libs/libbar.so'']\<rparr>,
        src = ''src''\<rparr>,
       \<lparr>substvars = Some (''shlibs:Depends=libc6 (>= 2.4), libfoo1 (>= 1.0)'' @ [CHR 0x0A]),
        calls = [], logs = []\<rparr>)"
proof -
  let ?text = "''shlibs:Depends=libc6 (>= 2.4), libfoo1 (>= 1.0)'' @ [CHR 0x0A]"
  let ?w = "\<lparr>substvars = Some ?text, calls = [], logs = []\<rparr>"
  have f: "substvars ?w = Some ?text" by simp
  have p: "findall SUBSTVARS_RE (drop 15 ?text) = [''libc6'', ''libfoo1'']"
    by code_simp
  then have n: "findall SUBSTVARS_RE (drop 15 ?text) \<noteq> []" by simp
  note t = substvars_cache_hit [OF f n]
  show ?thesis
    by (intro conjI, rule f, rule p, subst t, subst p) simp
qed






subsection \<open>The choice of a provider\<close>

lemma sort_key_head_least:
  assumes "sort_key f xs = p # ps"
  shows "p \<in> set xs \<and> (\<forall>x \<in> set xs. f p \<le> f x)"
proof -
  have s: "sorted (map f (sort_key f xs))" by (rule sorted_sort_key)
  have e: "set (sort_key f xs) = set xs" by simp
  from e assms have pin: "p \<in> set xs" by (metis list.set_intros(1))
  from s assms have "\<forall>y \<in> set ps. f p \<le> f y" by simp
  with e assms have "\<forall>x \<in> set xs. f p \<le> f x"
    by (metis order_refl set_ConsD)
  with pin show ?thesis by simp
qed

lemma select_provider_None:
  "fst (select_provider lib ps) = None \<longleftrightarrow> filter not_dbg ps = []"
  by (cases "sort_key length (filter not_dbg ps)")
     (auto simp: select_provider_def Let_def dest: arg_cong [where f = set])

lemma select_provider_Some:
  assumes "fst (select_provider lib ps) = Some p"
  shows "p \<in> set ps \<and> not_dbg p \<and> (\<forall>r \<in> set ps. not_dbg r \<longrightarrow> length p \<le> length r)"
proof -
  from assms obtain rest where "sort_key length (filter not_dbg ps) = p # rest"
    by (cases "sort_key length (filter not_dbg ps)") (auto simp: select_provider_def Let_def)
  from sort_key_head_least [OF this] show ?thesis by auto
qed

lemma select_provider_skip:
  assumes "filter not_dbg qs = []"
  shows "select_provider lib qs =
           (None, [Log WARNING ''did not find a package providing %s'' [Str lib]])"
  using assms by (simp add: select_provider_def)

lemma not_dbg_libfoo:
  "not_dbg ''libfoo-dev''" "not_dbg ''libfoo1''" "\<not> not_dbg ''libfoo1-dbg''"
  by (simp_all add: not_dbg_def)

lemma filter_three:
  assumes "set ps = {a, b, c}" "P a" "P b" "\<not> P c"
  shows "set (filter P ps) = {a, b}"
  using assms by auto

lemma sorted_pair:
  assumes "distinct ss" "set ss = {a, b}" "a \<noteq> b" "sorted (map f ss)" "f b < f a"
  shows "ss = [b, a]"
proof -
  have "length ss = card (set ss)" using assms(1) by (simp add: distinct_card)
  also have "\<dots> = 2" using assms(2,3) by simp
  finally obtain x y where xy: "ss = [x, y]"
    by (metis (no_types, lifting) length_0_conv length_Suc_conv numeral_2_eq_2)
  with assms(4) have le: "f x \<le> f y" by simp
  from xy assms(2) have "{x, y} = {a, b}" by simp
  with le assms(5) have "x = b \<and> y = a"
    by (auto simp: doubleton_eq_iff)
  with xy show ?thesis by simp
qed

lemma nonempty_of_set:
  assumes "set xs = insert a A"
  shows "xs \<noteq> []"
proof
  assume "xs = []"
  then have "set xs = {}" by simp
  with assms show False by simp
qed

text \<open>
  C2. Whatever the order in which the candidate set \<open>libfoo-dev\<close>, \<open>libfoo1\<close>,
  \<open>libfoo1-dbg\<close> is iterated, the debug candidate is filtered out, the remaining names
  are sorted by length and \<open>libfoo1\<close> is selected: the loop adds it to \<open>shlibdeps\<close> and
  goes on with the next library. When no candidate remains the library gets a warning and
  the loop goes on with the next library, \<open>shlibdeps\<close> unchanged.
\<close>

theorem provider_libfoo:
  "(set ps = {''libfoo-dev'', ''libfoo1'', ''libfoo1-dbg''} \<longrightarrow>
      set (filter not_dbg ps) = {''libfoo-dev'', ''libfoo1''} \<and>
      fst (select_provider lib ps) = Some ''libfoo1'' \<and>
      (distinct ps \<longrightarrow>
         sort_key length (filter not_dbg ps) = [''libfoo1'', ''libfoo-dev''] \<and>
         select_provider lib ps =
           (Some ''libfoo1'',
            [Log WARNING
               ''several packages providing %s: %s, picking %s, edit debian/control to use another one.''
               [Str lib, StrList [''libfoo1'', ''libfoo-dev''], Str ''libfoo1'']]))) \<and>
   (shell ext [''apt-file'', ''search'', lib] (substvars w) = Inr (out, file) \<and>
    set (set_order ext (findall APT_FILE_RE out)) = {''libfoo-dev'', ''libfoo1'', ''libfoo1-dbg''} \<longrightarrow>
      search_packages ext (lib # rest) (deps, w) =
        search_packages ext rest
          (insert ''libfoo1'' deps,
           w\<lparr>substvars := file,
             calls := calls w @ [[''apt-file'', ''search'', lib]],
             logs := logs w @ snd (select_provider lib (set_order ext (findall APT_FILE_RE out)))\<rparr>)) \<and>
   (filter not_dbg qs = [] \<longrightarrow>
      select_provider lib qs =
        (None, [Log WARNING ''did not find a package providing %s'' [Str lib]])) \<and>
   (shell ext [''apt-file'', ''search'', lib] (substvars w) = Inr (out, file) \<and>
    filter not_dbg (set_order ext (findall APT_FILE_RE out)) = [] \<longrightarrow>
      search_packages ext (lib # rest) (deps, w) =
        search_packages ext rest
          (deps, w\<lparr>substvars := file,
                   calls := calls w @ [[''apt-file'', ''search'', lib]],
                   logs := logs w @
                     [Log WARNING ''did not find a package providing %s'' [Str lib]]\<rparr>))"
proof -
  have first: "set (filter not_dbg xs) = {''libfoo-dev'', ''libfoo1''} \<and>
      fst (select_provider lib xs) = Some ''libfoo1'' \<and>
      (distinct xs \<longrightarrow>
         sort_key length (filter not_dbg xs) = [''libfoo1'', ''libfoo-dev''] \<and>
         select_provider lib xs =
           (Some ''libfoo1'',
            [Log WARNING
               ''several packages providing %s: %s, picking %s, edit debian/control to use another one.''
               [Str lib, StrList [''libfoo1'', ''libfoo-dev''], Str ''libfoo1'']]))"
    if ps: "set xs = {''libfoo-dev'', ''libfoo1'', ''libfoo1-dbg''}" for xs
  proof -
    have filtered: "set (filter not_dbg xs) = {''libfoo-dev'', ''libfoo1''}"
      using ps not_dbg_libfoo by (rule filter_three)
    then have "filter not_dbg xs \<noteq> []" by (rule nonempty_of_set)
    then have "fst (select_provider lib xs) \<noteq> None"
      by (simp add: select_provider_None)
    then obtain p where p: "fst (select_provider lib xs) = Some p"
      by blast
    note sp = select_provider_Some [OF p]
    from sp have "p \<in> set (filter not_dbg xs)" by simp
    with filtered have cases: "p = ''libfoo-dev'' \<or> p = ''libfoo1''" by simp
    have "''libfoo1'' \<in> set xs" by (simp add: ps)
    with sp not_dbg_libfoo(2) have "length p \<le> length ''libfoo1''" by blast
    then have "p \<noteq> ''libfoo-dev''" by auto
    with cases have "p = ''libfoo1''" by simp
    with p have pick: "fst (select_provider lib xs) = Some ''libfoo1''" by simp
    have order: "sort_key length (filter not_dbg xs) = [''libfoo1'', ''libfoo-dev''] \<and>
         select_provider lib xs =
           (Some ''libfoo1'',
            [Log WARNING
               ''several packages providing %s: %s, picking %s, edit debian/control to use another one.''
               [Str lib, StrList [''libfoo1'', ''libfoo-dev''], Str ''libfoo1'']])"
      if d: "distinct xs"
    proof -
      have s: "sort_key length (filter not_dbg xs) = [''libfoo1'', ''libfoo-dev'']"
      proof (rule sorted_pair [where f = length])
        show "distinct (sort_key length (filter not_dbg xs))" using d by simp
        show "set (sort_key length (filter not_dbg xs)) = {''libfoo-dev'', ''libfoo1''}"
          using filtered by simp
        show "''libfoo-dev'' \<noteq> ''libfoo1''" by simp
        show "sorted (map length (sort_key length (filter not_dbg xs)))"
          by (rule sorted_sort_key)
        show "length ''libfoo1'' < length ''libfoo-dev''" by simp
      qed
      then show ?thesis by (simp add: select_provider_def)
    qed
    from filtered pick order show ?thesis by blast
  qed
  have added: "search_packages ext (lib # rest) (deps, w) =
        search_packages ext rest
          (insert ''libfoo1'' deps,
           w\<lparr>substvars := file,
             calls := calls w @ [[''apt-file'', ''search'', lib]],
             logs := logs w @ snd (select_provider lib (set_order ext (findall APT_FILE_RE out)))\<rparr>)"
    if sh: "shell ext [''apt-file'', ''search'', lib] (substvars w) = Inr (out, file)"
      and cs: "set (set_order ext (findall APT_FILE_RE out)) =
                 {''libfoo-dev'', ''libfoo1'', ''libfoo1-dbg''}"
  proof -
    from first [OF cs]
    have "fst (select_provider lib (set_order ext (findall APT_FILE_RE out))) = Some ''libfoo1''"
      by blast
    then show ?thesis
      by (subst search_packages.simps(2)) (simp add: sh case_prod_beta)
  qed
  have second: "select_provider lib qs =
        (None, [Log WARNING ''did not find a package providing %s'' [Str lib]])"
    if "filter not_dbg qs = []"
    using that by (rule select_provider_skip)
  have third: "search_packages ext (lib # rest) (deps, w) =
        search_packages ext rest
          (deps, w\<lparr>substvars := file,
                   calls := calls w @ [[''apt-file'', ''search'', lib]],
                   logs := logs w @
                     [Log WARNING ''did not find a package providing %s'' [Str lib]]\<rparr>)"
    if "shell ext [''apt-file'', ''search'', lib] (substvars w) = Inr (out, file)"
      and "filter not_dbg (set_order ext (findall APT_FILE_RE out)) = []"
    using that by (simp add: select_provider_skip)
  from first [of ps] added second third show ?thesis by blast
qed

theorem provider_libfoo_witness:
  "set [''libfoo-dev'', ''libfoo1'', ''libfoo1-dbg''] = {''libfoo-dev'', ''libfoo1'', ''libfoo1-dbg''} \<and>
   distinct [''libfoo-dev'', ''libfoo1'', ''libfoo1-dbg''] \<and>
   fst (select_provider ''libfoo.so.1'' [''libfoo-dev'', ''libfoo1'', ''libfoo1-dbg'']) = Some ''libfoo1'' \<and>
   sort_key length (filter not_dbg [''libfoo-dev'', ''libfoo1'', ''libfoo1-dbg'']) =
     [''libfoo1'', ''libfoo-dev''] \<and>
   search_packages
     \<lparr>shell = (\<lambda>args file.
        Inr (''libfoo-dev: /usr/lib/libfoo.so'' @ [CHR 0x0A] @
             ''libfoo1: /usr/lib/libfoo.so.1'' @ [CHR 0x0A] @
             ''libfoo1-dbg: /usr/lib/debug/libfoo.so.1'', file)),
      set_order = remdups, joinpath = (\<lambda>a b. a @ ''/'' @ b)\<rparr>
     [''libfoo.so.1''] ({}, \<lparr>substvars = None, calls = [], logs = []\<rparr>) =
   Inr ({''libfoo1''},
        \<lparr>substvars = None, calls = [[''apt-file'', ''search'', ''libfoo.so.1'']],
         logs = [Log WARNING
           ''several packages providing %s: %s, picking %s, edit debian/control to use another one.''
           [Str ''libfoo.so.1'', StrList [''libfoo1'', ''libfoo-dev''], Str ''libfoo1'']]\<rparr>) \<and>
   filter not_dbg [''libfoo1-dbg''] = [] \<and>
   select_provider ''libfoo.so.1'' [''libfoo1-dbg''] =
     (None, [Log WARNING ''did not find a package providing %s'' [Str ''libfoo.so.1'']]) \<and>
   search_packages
     \<lparr>shell = (\<lambda>args file. Inr (''libfoo1-dbg: /usr/lib/debug/libfoo.so.1'', file)),
      set_order = remdups, joinpath = (\<lambda>a b. a @ ''/'' @ b)\<rparr>
     [''libfoo.so.1''] ({}, \<lparr>substvars = None, calls = [], logs = []\<rparr>) =
   Inr ({}, \<lparr>substvars = None, calls = [[''apt-file'', ''search'', ''libfoo.so.1'']],
             logs = [Log WARNING ''did not find a package providing %s'' [Str ''libfoo.so.1'']]\<rparr>)"
proof -
  let ?ps = "[''libfoo-dev'', ''libfoo1'', ''libfoo1-dbg'']"
  let ?out3 = "''libfoo-dev: /usr/lib/libfoo.so'' @ [CHR 0x0A] @
             ''libfoo1: /usr/lib/libfoo.so.1'' @ [CHR 0x0A] @
             ''libfoo1-dbg: /usr/lib/debug/libfoo.so.1''"
  let ?out = "''libfoo1-dbg: /usr/lib/debug/libfoo.so.1''"
  let ?ext3 = "\<lparr>shell = (\<lambda>args file. Inr (?out3, file)),
      set_order = remdups, joinpath = (\<lambda>a b. a @ ''/'' @ b)\<rparr>"
  let ?ext = "\<lparr>shell = (\<lambda>args file. Inr (?out, file)),
      set_order = remdups, joinpath = (\<lambda>a b. a @ ''/'' @ b)\<rparr>"
  let ?w = "\<lparr>substvars = None, calls = [], logs = []\<rparr>"
  have s: "set ?ps = {''libfoo-dev'', ''libfoo1'', ''libfoo1-dbg''}" by simp
  have d: "distinct ?ps" by simp
  have e: "filter not_dbg [''libfoo1-dbg''] = []" by (simp add: not_dbg_def)
  have f3: "findall APT_FILE_RE ?out3 = ?ps"
    by code_simp
  have f: "findall APT_FILE_RE ?out = [''libfoo1-dbg'']"
    by code_simp
  have sh3: "shell ?ext3 [''apt-file'', ''search'', ''libfoo.so.1''] (substvars ?w) = Inr (?out3, None)"
    by simp
  have sh: "shell ?ext [''apt-file'', ''search'', ''libfoo.so.1''] (substvars ?w) = Inr (?out, None)"
    by simp
  have o3: "set_order ?ext3 (findall APT_FILE_RE ?out3) = ?ps"
    using f3 by simp
  have g3: "set (set_order ?ext3 (findall APT_FILE_RE ?out3)) =
              {''libfoo-dev'', ''libfoo1'', ''libfoo1-dbg''}"
    by (simp only: o3 s)
  have g: "filter not_dbg (set_order ?ext (findall APT_FILE_RE ?out)) = []"
    by (simp add: f not_dbg_def)
  note t3 = provider_libfoo [of ?ps "''libfoo.so.1''" ?ext3 ?w ?out3 None "[]" "{}" "[''libfoo1-dbg'']"]
  note t = provider_libfoo [of ?ps "''libfoo.so.1''" ?ext ?w ?out None "[]" "{}" "[''libfoo1-dbg'']"]
  note t1 = t [THEN conjunct1, THEN mp, OF s]
  note c1 = t1 [THEN conjunct2, THEN conjunct1]
  note c2 = t1 [THEN conjunct2, THEN conjunct2, THEN mp, OF d, THEN conjunct1]
  note c2' = t1 [THEN conjunct2, THEN conjunct2, THEN mp, OF d, THEN conjunct2]
  note a3 = t3 [THEN conjunct2, THEN conjunct1, THEN mp, OF conjI [OF sh3 g3]]
  from a3 have c3: "search_packages ?ext3 [''libfoo.so.1''] ({}, ?w) =
     Inr ({''libfoo1''},
        \<lparr>substvars = None, calls = [[''apt-file'', ''search'', ''libfoo.so.1'']],
         logs = [Log WARNING
           ''several packages providing %s: %s, picking %s, edit debian/control to use another one.''
           [Str ''libfoo.so.1'', StrList [''libfoo1'', ''libfoo-dev''], Str ''libfoo1'']]\<rparr>)"
    by (simp only: o3 c2' snd_conv search_packages.simps(1)) simp
  note c4 = t [THEN conjunct2, THEN conjunct2, THEN conjunct1, THEN mp, OF e]
  note a5 = t [THEN conjunct2, THEN conjunct2, THEN conjunct2, THEN mp, OF conjI [OF sh g]]
  then have c5: "search_packages ?ext [''libfoo.so.1''] ({}, ?w) =
     Inr ({}, \<lparr>substvars = None, calls = [[''apt-file'', ''search'', ''libfoo.so.1'']],
             logs = [Log WARNING ''did not find a package providing %s'' [Str ''libfoo.so.1'']]\<rparr>)"
    by simp
  from s d c1 c2 c3 e c4 c5 show ?thesis by (intro conjI)
qed

text \<open>
  C3, as the specification states it, fails: two names of the same, least length are picked
  in the order in which the candidate set happens to be iterated.
\<close>

theorem tie_counterexample:
  "set [''libfoo1'', ''libfoo2''] = set [''libfoo2'', ''libfoo1''] \<and>
   distinct [''libfoo1'', ''libfoo2''] \<and> distinct [''libfoo2'', ''libfoo1''] \<and>
   fst (select_provider ''libfoo.so.1'' [''libfoo1'', ''libfoo2'']) = Some ''libfoo1'' \<and>
   fst (select_provider ''libfoo.so.1'' [''libfoo2'', ''libfoo1'']) = Some ''libfoo2'' \<and>
   fst (select_provider ''libfoo.so.1'' [''libfoo1'', ''libfoo2'']) \<noteq>
   fst (select_provider ''libfoo.so.1'' [''libfoo2'', ''libfoo1''])"
  by (simp add: select_provider_def not_dbg_def insert_commute)

text \<open>
  C3, amended. Two runs on the same candidate set either both find no provider, or both pick
  a candidate that is not a debug package and whose name is as short as any such
  candidate's, so the two picks have the same length; when only one such candidate has
  the least length, the two runs pick the same package.
\<close>

theorem pick_shortest:
  assumes "set ps = set qs"
  shows "(fst (select_provider lib ps) = None \<longleftrightarrow> fst (select_provider lib qs) = None) \<and>
         (\<forall>p q. fst (select_provider lib ps) = Some p \<and> fst (select_provider lib qs) = Some q \<longrightarrow>
            p \<in> set ps \<and> not_dbg p \<and> (\<forall>r \<in> set ps. not_dbg r \<longrightarrow> length p \<le> length r) \<and>
            length q = length p \<and>
            ((\<forall>r \<in> set ps. not_dbg r \<and> length r = length p \<longrightarrow> r = p) \<longrightarrow> q = p))"
proof -
  have none: "fst (select_provider lib ps) = None \<longleftrightarrow> fst (select_provider lib qs) = None"
    using assms by (simp add: select_provider_None filter_empty_conv)
  have some: "p \<in> set ps \<and> not_dbg p \<and> (\<forall>r \<in> set ps. not_dbg r \<longrightarrow> length p \<le> length r) \<and>
            length q = length p \<and>
            ((\<forall>r \<in> set ps. not_dbg r \<and> length r = length p \<longrightarrow> r = p) \<longrightarrow> q = p)"
    if "fst (select_provider lib ps) = Some p" "fst (select_provider lib qs) = Some q" for p q
  proof -
    note P = select_provider_Some [OF that(1)]
    note Q = select_provider_Some [OF that(2)]
    from P Q assms have "length p \<le> length q" "length q \<le> length p" by auto
    then have "length q = length p" by simp
    with P Q assms show ?thesis by auto
  qed
  from none some show ?thesis by blast
qed

theorem pick_shortest_witness:
  "set [''libfoo-dev'', ''libfoo1'', ''libfoo1-dbg''] = set [''libfoo1-dbg'', ''libfoo1'', ''libfoo-dev''] \<and>
   fst (select_provider ''libfoo.so.1'' [''libfoo-dev'', ''libfoo1'', ''libfoo1-dbg'']) = Some ''libfoo1'' \<and>
   fst (select_provider ''libfoo.so.1'' [''libfoo1-dbg'', ''libfoo1'', ''libfoo-dev'']) = Some ''libfoo1''"
proof -
  let ?ps = "[''libfoo-dev'', ''libfoo1'', ''libfoo1-dbg'']"
  let ?qs = "[''libfoo1-dbg'', ''libfoo1'', ''libfoo-dev'']"
  have s: "set ?ps = set ?qs" by (simp add: insert_commute)
  have p: "fst (select_provider ''libfoo.so.1'' ?ps) = Some ''libfoo1''"
    by (simp add: select_provider_def not_dbg_def)
  have u: "\<forall>r \<in> set ?ps. not_dbg r \<and> length r = length ''libfoo1'' \<longrightarrow> r = ''libfoo1''"
    by (simp add: not_dbg_def)
  note t = pick_shortest [OF s, of "''libfoo.so.1''"]
  from t [THEN conjunct1] p have "fst (select_provider ''libfoo.so.1'' ?qs) \<noteq> None" by simp
  then obtain q where q: "fst (select_provider ''libfoo.so.1'' ?qs) = Some q" by blast
  from t [THEN conjunct2, THEN spec, THEN spec, THEN mp, OF conjI [OF p q]] u
  have "q = ''libfoo1''" by blast
  with q p s show ?thesis by simp
qed

end
